theory Spec2Isabelle
  imports Main "HOL-Library.Word"
begin

unbundle bit_operations_syntax

section \<open>The environment of capture.c\<close>

text \<open>
  The program in \<^verbatim>\<open>examples/ccapture/capture.c\<close> talks to the kernel and to libc
  only: \<^verbatim>\<open>getopt_long\<close>, \<^verbatim>\<open>strtol\<close>, \<^verbatim>\<open>stat\<close>, \<^verbatim>\<open>open\<close>, \<^verbatim>\<open>ioctl\<close>, \<^verbatim>\<open>calloc\<close>,
  \<^verbatim>\<open>mmap\<close>, \<^verbatim>\<open>select\<close>, \<^verbatim>\<open>munmap\<close>, \<^verbatim>\<open>close\<close>. None of them is code of the
  program, so each call takes its answer from a script: the list of the answers the
  environment will give, in the order of the calls. A run that has used up its script
  is \<open>Blocked\<close>: a finite script is a finite prefix of what the device does.
\<close>

datatype error_number = E_none | EINTR | EAGAIN | EIO | EINVAL | E_other nat

text \<open>
  One answer of the environment. \<open>ret\<close> is the value the call returns (a pointer is
  its address, so \<^verbatim>\<open>MAP_FAILED\<close> is \<open>-1\<close> and \<^verbatim>\<open>NULL\<close> is \<open>0\<close>); \<open>err\<close> is what the
  call stores into \<^verbatim>\<open>errno\<close> (\<open>E_none\<close>: it leaves \<^verbatim>\<open>errno\<close> alone). The other
  fields are what the call writes through its pointer argument: each call reads the
  fields it has.
\<close>

record reply =
  ret :: int
  err :: error_number
  st_ischr :: bool
  capabilities :: "32 word"
  count :: "32 word"
  index :: "32 word"
  bytesused :: "32 word"
  length_q :: "32 word"
  offset :: "32 word"
  optarg :: string

datatype pixelformat = V4L2_PIX_FMT_YUYV

datatype field_order = V4L2_FIELD_INTERLACED

text \<open>The ioctl requests, each with the fields the program sets in the argument.\<close>

datatype request =
    VIDIOC_QUERYCAP
  | VIDIOC_CROPCAP
  | VIDIOC_S_CROP
  | VIDIOC_S_FMT nat nat pixelformat field_order
  | VIDIOC_G_FMT
  | VIDIOC_REQBUFS "32 word"
  | VIDIOC_QUERYBUF "32 word"
  | VIDIOC_QBUF "32 word"
  | VIDIOC_DQBUF
  | VIDIOC_STREAMON
  | VIDIOC_STREAMOFF

datatype libcall =
    C_getopt_long
  | C_strtol string
  | C_stat string
  | C_open string
  | C_close int
  | C_select int int int
  | C_ioctl int request
  | C_calloc "32 word"
  | C_mmap "32 word" int "32 word"
  | C_munmap int "64 word"

datatype stream = Stdout | Stderr

text \<open>What a run does, in order: the calls with their answers, and the output.\<close>

datatype event =
    Call libcall reply
  | Fwrite int int
  | Fprintf stream string
  | Fprintf_errno string error_number
  | Fflush stream
  | Usage stream
  | Free

text \<open>
  How a function of the program ends: it returns, or the process stops there
  (\<^verbatim>\<open>exit\<close>, a failed \<^verbatim>\<open>assert\<close>), or the script is used up, or the program reads
  outside the \<^verbatim>\<open>buffers\<close> array.
\<close>

datatype halt = Exit int | Abort | Blocked | Out_of_bounds

datatype 'a result = Return 'a | Halt halt

section \<open>The program state\<close>

text \<open>\<^verbatim>\<open>struct buffer { void *start; size_t length; }\<close>\<close>

record buffer =
  start :: int
  length_b :: "64 word"

text \<open>
  The globals of capture.c, \<^verbatim>\<open>errno\<close>, and the environment: the answers still to come
  and the events so far. The \<^verbatim>\<open>int\<close> \<open>frame_count\<close> is a 32-bit word, read in two's
  complement by \<open>sint\<close>; \<open>n_buffers\<close> is \<^verbatim>\<open>unsigned int\<close>. The program only compares
  \<open>fd\<close>, \<open>out_buf\<close> and \<open>force_format\<close> with constants (and counts the \<^verbatim>\<open>-o\<close> options
  in \<open>out_buf\<close>), so these are plain integers. The global \<^verbatim>\<open>io\<close> is never read.
\<close>

record state =
  dev_name :: string
  fd :: int
  buffers :: "buffer list"
  n_buffers :: "32 word"
  out_buf :: int
  force_format :: int
  frame_count :: "32 word"
  errno :: error_number
  script :: "reply list"
  trace :: "event list"

text \<open>
  Modelled from the spec: \<^verbatim>\<open>EXIT_FAILURE\<close> and \<^verbatim>\<open>EXIT_SUCCESS\<close> come from \<^verbatim>\<open>stdlib.h\<close>,
  which is not in the repository; the specification gives exit code 1 for a fatal
  condition and 0 for normal completion.
\<close>

definition EXIT_FAILURE :: int where
  "EXIT_FAILURE = 1"

definition EXIT_SUCCESS :: int where
  "EXIT_SUCCESS = 0"

definition log_event :: "event \<Rightarrow> state \<Rightarrow> state" where
  "log_event e s = s\<lparr>trace := trace s @ [e]\<rparr>"

text \<open>A call to the environment takes the next answer of the script.\<close>

definition invoke :: "libcall \<Rightarrow> state \<Rightarrow> reply result \<times> state" where
  "invoke c s =
     (case script s of
        [] \<Rightarrow> (Halt Blocked, s)
      | r # rs \<Rightarrow>
          (Return r,
           s\<lparr>script := rs,
             trace := trace s @ [Call c r],
             errno := (if err r = E_none then errno s else err r)\<rparr>))"

text \<open>\<^verbatim>\<open>exit(code)\<close>\<close>

definition exit_with :: "int \<Rightarrow> state \<Rightarrow> 'a result \<times> state" where
  "exit_with code s = (Halt (Exit code), s)"

section \<open>The functions of capture.c\<close>

definition errno_exit :: "string \<Rightarrow> state \<Rightarrow> 'a result \<times> state" where
  "errno_exit msg s = exit_with EXIT_FAILURE (log_event (Fprintf_errno msg (errno s)) s)"

function xioctl :: "int \<Rightarrow> request \<Rightarrow> state \<Rightarrow> reply result \<times> state" where
  "xioctl fh rq s =
     (case invoke (C_ioctl fh rq) s of
        (Return r, s') \<Rightarrow>
          if ret r = -1 \<and> errno s' = EINTR then xioctl fh rq s' else (Return r, s')
      | (Halt h, s') \<Rightarrow> (Halt h, s'))"
  by pat_completeness auto
termination
  by (relation "measure (\<lambda>(fh, rq, s). length (script s))")
     (auto simp: invoke_def split: list.splits)

declare xioctl.simps [simp del]

definition process_image :: "int \<Rightarrow> int \<Rightarrow> state \<Rightarrow> state" where
  "process_image p size_i s =
     (let s1 = (if out_buf s \<noteq> 0 then log_event (Fwrite p size_i) s else s);
          s2 = log_event (Fflush Stderr) s1;
          s3 = log_event (Fprintf Stderr ''.'') s2
      in log_event (Fflush Stdout) s3)"

definition read_frame :: "state \<Rightarrow> int result \<times> state" where
  "read_frame s =
     (case xioctl (fd s) VIDIOC_DQBUF s of
        (Halt h, s1) \<Rightarrow> (Halt h, s1)
      | (Return buf, s1) \<Rightarrow>
          if ret buf = -1 then
            (case errno s1 of
               EAGAIN \<Rightarrow> (Return 0, s1)
             | EIO \<Rightarrow> errno_exit ''VIDIOC_DQBUF'' s1
             | _ \<Rightarrow> errno_exit ''VIDIOC_DQBUF'' s1)
          else if \<not> index buf < n_buffers s1 then (Halt Abort, s1)
          else if \<not> unat (index buf) < length (buffers s1) then (Halt Out_of_bounds, s1)
          else
            (let s2 = process_image (start (buffers s1 ! unat (index buf)))
                        (sint (bytesused buf)) s1
             in case xioctl (fd s2) (VIDIOC_QBUF (index buf)) s2 of
                  (Halt h, s3) \<Rightarrow> (Halt h, s3)
                | (Return q, s3) \<Rightarrow>
                    if ret q = -1 then errno_exit ''VIDIOC_QBUF'' s3 else (Return 1, s3)))"


text \<open>
  Every call consumes one answer, so the script measures how long a loop that makes a
  call in each iteration can still run.
\<close>

lemma invoke_Return_script:
  "invoke c s = (Return r, s') \<Longrightarrow> script s = r # script s'"
  by (auto simp: invoke_def split: list.splits)

lemma xioctl_script_le:
  "xioctl fh rq s = (res, s') \<Longrightarrow> length (script s') \<le> length (script s)"
proof (induction fh rq s rule: xioctl.induct)
  case (1 fh rq s)
  show ?case
  proof (cases "invoke (C_ioctl fh rq) s")
    case (Pair a s1)
    show ?thesis
    proof (cases a)
      case (Return r)
      have sc: "script s = r # script s1"
        using Pair Return by (simp add: invoke_Return_script)
      show ?thesis
      proof (cases "ret r = -1 \<and> errno s1 = EINTR")
        case True
        then have "xioctl fh rq s1 = (res, s')"
          using "1.prems" Pair Return by (subst (asm) xioctl.simps) simp
        then have "length (script s') \<le> length (script s1)"
          using "1.IH" Pair Return True by simp
        then show ?thesis using sc by simp
      next
        case False
        then have "s' = s1"
          using "1.prems" Pair Return by (subst (asm) xioctl.simps) auto
        then show ?thesis using sc by simp
      qed
    next
      case (Halt h)
      then have "s' = s"
        using "1.prems" Pair
        by (subst (asm) xioctl.simps) (auto simp: invoke_def split: list.splits)
      then show ?thesis by simp
    qed
  qed
qed

lemma xioctl_Return_script_less:
  "xioctl fh rq s = (Return r, s') \<Longrightarrow> length (script s') < length (script s)"
proof (induction fh rq s rule: xioctl.induct)
  case (1 fh rq s)
  show ?case
  proof (cases "invoke (C_ioctl fh rq) s")
    case (Pair a s1)
    show ?thesis
    proof (cases a)
      case (Return r1)
      have sc: "script s = r1 # script s1"
        using Pair Return by (simp add: invoke_Return_script)
      show ?thesis
      proof (cases "ret r1 = -1 \<and> errno s1 = EINTR")
        case True
        then have "xioctl fh rq s1 = (Return r, s')"
          using "1.prems" Pair Return by (subst (asm) xioctl.simps) simp
        then have "length (script s') < length (script s1)"
          using "1.IH" Pair Return True by simp
        then show ?thesis using sc by simp
      next
        case False
        then have "s' = s1"
          using "1.prems" Pair Return by (subst (asm) xioctl.simps) auto
        then show ?thesis using sc by simp
      qed
    next
      case (Halt h)
      then show ?thesis
        using "1.prems" Pair by (subst (asm) xioctl.simps) auto
    qed
  qed
qed

lemma script_log_event [simp]: "script (log_event e s) = script s"
  by (simp add: log_event_def)

lemma script_process_image [simp]: "script (process_image p n s) = script s"
  by (simp add: process_image_def Let_def)

lemma script_errno_exit:
  "errno_exit msg s = (res, s') \<Longrightarrow> script s' = script s"
  by (auto simp: errno_exit_def exit_with_def)

lemma read_frame_script_le:
  "read_frame s = (res, s') \<Longrightarrow> length (script s') \<le> length (script s)"
  unfolding read_frame_def
  by (auto split: prod.splits result.splits if_splits error_number.splits
           simp: Let_def
           dest!: xioctl_script_le script_errno_exit)

lemma invoke_Return_less:
  "(Return r, s') = invoke c s \<Longrightarrow> length (script s') < length (script s)"
  by (auto simp: invoke_def split: list.splits)

lemma xioctl_Return_less:
  "(Return r, s') = xioctl fh rq s \<Longrightarrow> length (script s') < length (script s)"
  using xioctl_Return_script_less [of fh rq s r s'] by simp

lemma read_frame_script_le':
  "(res, s') = read_frame s \<Longrightarrow> length (script s') \<le> length (script s)"
  using read_frame_script_le [of s res s'] by simp

text \<open>
  \<^verbatim>\<open>mainloop\<close>: the body of \<^verbatim>\<open>for (;;)\<close> is \<open>mainloop_for\<close>, the
  \<^verbatim>\<open>while (count-- > 0)\<close> around it is \<open>mainloop_while\<close>. \<^verbatim>\<open>count = frame_count\<close>
  converts the \<^verbatim>\<open>int\<close> to \<^verbatim>\<open>unsigned int\<close>: the same 32 bits.
\<close>

function mainloop_for :: "state \<Rightarrow> unit result \<times> state" where
  "mainloop_for s =
     (case invoke (C_select (fd s + 1) 2 0) s of
        (Halt h, s1) \<Rightarrow> (Halt h, s1)
      | (Return r, s1) \<Rightarrow>
          if ret r = -1 then
            (if errno s1 = EINTR then mainloop_for s1 else errno_exit ''select'' s1)
          else if ret r = 0 then
            exit_with EXIT_FAILURE (log_event (Fprintf Stderr ''select timeout\<newline>'') s1)
          else
            (case read_frame s1 of
               (Halt h, s2) \<Rightarrow> (Halt h, s2)
             | (Return v, s2) \<Rightarrow> if v \<noteq> 0 then (Return (), s2) else mainloop_for s2))"
  by pat_completeness auto
termination
  by (relation "measure (\<lambda>s. length (script s))")
     (auto dest!: invoke_Return_less read_frame_script_le')

declare mainloop_for.simps [simp del]


lemma unat_pred_less: "0 < (c :: 32 word) \<Longrightarrow> unat (c - 1) < unat c"
  by (simp add: unat_minus_one word_greater_zero_iff unat_gt_0)

function mainloop_while :: "32 word \<Rightarrow> state \<Rightarrow> unit result \<times> state" where
  "mainloop_while count_v s =
     (if count_v > 0 then
        (case mainloop_for s of
           (Halt h, s1) \<Rightarrow> (Halt h, s1)
         | (Return u, s1) \<Rightarrow> mainloop_while (count_v - 1) s1)
      else (Return (), s))"
  by pat_completeness auto
termination
  by (relation "measure (\<lambda>(c, s). unat c)") (auto simp: unat_pred_less)

declare mainloop_while.simps [simp del]

definition mainloop :: "state \<Rightarrow> unit result \<times> state" where
  "mainloop s = mainloop_while (frame_count s) s"

definition stop_capturing :: "state \<Rightarrow> unit result \<times> state" where
  "stop_capturing s =
     (case xioctl (fd s) VIDIOC_STREAMOFF s of
        (Halt h, s1) \<Rightarrow> (Halt h, s1)
      | (Return r, s1) \<Rightarrow>
          if ret r = -1 then errno_exit ''VIDIOC_STREAMOFF'' s1 else (Return (), s1))"

text \<open>\<^verbatim>\<open>for (i = 0; i < n_buffers; ++i)\<close> of \<^verbatim>\<open>start_capturing\<close>\<close>

function start_capturing_for :: "32 word \<Rightarrow> state \<Rightarrow> unit result \<times> state" where
  "start_capturing_for i s =
     (if i < n_buffers s then
        (case xioctl (fd s) (VIDIOC_QBUF i) s of
           (Halt h, s1) \<Rightarrow> (Halt h, s1)
         | (Return r, s1) \<Rightarrow>
             if ret r = -1 then errno_exit ''VIDIOC_QBUF'' s1
             else start_capturing_for (i + 1) s1)
      else (Return (), s))"
  by pat_completeness auto
termination
  by (relation "measure (\<lambda>(i, s). length (script s))")
     (auto dest!: xioctl_Return_less)

declare start_capturing_for.simps [simp del]

definition start_capturing :: "state \<Rightarrow> unit result \<times> state" where
  "start_capturing s =
     (case start_capturing_for 0 s of
        (Halt h, s1) \<Rightarrow> (Halt h, s1)
      | (Return u, s1) \<Rightarrow>
          (case xioctl (fd s1) VIDIOC_STREAMON s1 of
             (Halt h, s2) \<Rightarrow> (Halt h, s2)
           | (Return r, s2) \<Rightarrow>
               if ret r = -1 then errno_exit ''VIDIOC_STREAMON'' s2 else (Return (), s2)))"

text \<open>\<^verbatim>\<open>for (i = 0; i < n_buffers; ++i)\<close> of \<^verbatim>\<open>uninit_device\<close>\<close>

function uninit_device_for :: "32 word \<Rightarrow> state \<Rightarrow> unit result \<times> state" where
  "uninit_device_for i s =
     (if i < n_buffers s then
        (if \<not> unat i < length (buffers s) then (Halt Out_of_bounds, s)
         else
           (case invoke (C_munmap (start (buffers s ! unat i))
                                  (length_b (buffers s ! unat i))) s of
              (Halt h, s1) \<Rightarrow> (Halt h, s1)
            | (Return r, s1) \<Rightarrow>
                if ret r = -1 then errno_exit ''munmap'' s1
                else uninit_device_for (i + 1) s1))
      else (Return (), s))"
  by pat_completeness auto
termination
  by (relation "measure (\<lambda>(i, s). length (script s))")
     (auto dest!: invoke_Return_less)

declare uninit_device_for.simps [simp del]

definition uninit_device :: "state \<Rightarrow> unit result \<times> state" where
  "uninit_device s =
     (case uninit_device_for 0 s of
        (Halt h, s1) \<Rightarrow> (Halt h, s1)
      | (Return u, s1) \<Rightarrow> (Return (), log_event Free s1))"

text \<open>
  \<^verbatim>\<open>for (n_buffers = 0; n_buffers < req.count; ++n_buffers)\<close> of \<^verbatim>\<open>init_mmap\<close>: the
  loop counter is the global. \<^verbatim>\<open>buf.length\<close> is 32 bits wide and is stored into a
  \<^verbatim>\<open>size_t\<close>.
\<close>

function init_mmap_for :: "32 word \<Rightarrow> state \<Rightarrow> unit result \<times> state" where
  "init_mmap_for req_count s =
     (if n_buffers s < req_count then
        (case xioctl (fd s) (VIDIOC_QUERYBUF (n_buffers s)) s of
           (Halt h, s1) \<Rightarrow> (Halt h, s1)
         | (Return buf, s1) \<Rightarrow>
             if ret buf = -1 then errno_exit ''VIDIOC_QUERYBUF'' s1
             else if \<not> unat (n_buffers s1) < length (buffers s1)
             then (Halt Out_of_bounds, s1)
             else
               (let n = unat (n_buffers s1);
                    s2 = s1\<lparr>buffers := (buffers s1)
                           [n := (buffers s1 ! n)\<lparr>length_b := ucast (length_q buf)\<rparr>]\<rparr>
                in case invoke (C_mmap (length_q buf) (fd s2) (offset buf)) s2 of
                     (Halt h, s3) \<Rightarrow> (Halt h, s3)
                   | (Return m, s3) \<Rightarrow>
                       (let s4 = s3\<lparr>buffers := (buffers s3)
                                  [n := (buffers s3 ! n)\<lparr>start := ret m\<rparr>]\<rparr>
                        in if ret m = -1 then errno_exit ''mmap'' s4
                           else init_mmap_for req_count
                                  (s4\<lparr>n_buffers := n_buffers s4 + 1\<rparr>))))
      else (Return (), s))"
  by pat_completeness auto
termination
  by (relation "measure (\<lambda>(c, s). length (script s))")
     (auto dest!: xioctl_Return_less invoke_Return_less)

declare init_mmap_for.simps [simp del]

definition init_mmap :: "state \<Rightarrow> unit result \<times> state" where
  "init_mmap s =
     (case xioctl (fd s) (VIDIOC_REQBUFS 4) s of
        (Halt h, s1) \<Rightarrow> (Halt h, s1)
      | (Return req, s1) \<Rightarrow>
          if ret req = -1 then
            (if errno s1 = EINVAL then
               exit_with EXIT_FAILURE
                 (log_event (Fprintf Stderr
                    (dev_name s1 @ '' does not support memory mapping\<newline>'')) s1)
             else errno_exit ''VIDIOC_REQBUFS'' s1)
          else if count req < 2 then
            exit_with EXIT_FAILURE
              (log_event (Fprintf Stderr
                 (''Insufficient buffer memory on '' @ dev_name s1 @ ''\<newline>'')) s1)
          else
            (case invoke (C_calloc (count req)) s1 of
               (Halt h, s2) \<Rightarrow> (Halt h, s2)
             | (Return p, s2) \<Rightarrow>
                 if ret p = 0 then
                   exit_with EXIT_FAILURE
                     (log_event (Fprintf Stderr ''Out of memory\<newline>'') s2)
                 else
                   init_mmap_for (count req)
                     (s2\<lparr>buffers := replicate (unat (count req))
                                        \<lparr>start = 0, length_b = 0\<rparr>,
                         n_buffers := 0\<rparr>)))"


text \<open>
  Modelled from the spec: the two capability flags the specification names (video
  capture, and streaming by memory mapping) are \<^verbatim>\<open>V4L2_CAP_VIDEO_CAPTURE\<close> and
  \<^verbatim>\<open>V4L2_CAP_STREAMING\<close> of \<^verbatim>\<open>linux/videodev2.h\<close>, a header of the kernel that is not in
  the repository; the values are the header's.
\<close>

definition V4L2_CAP_VIDEO_CAPTURE :: "32 word" where
  "V4L2_CAP_VIDEO_CAPTURE = 0x00000001"

definition V4L2_CAP_STREAMING :: "32 word" where
  "V4L2_CAP_STREAMING = 0x04000000"

text \<open>Sequencing: the next function runs only when the one before has returned.\<close>

definition and_then ::
  "(state \<Rightarrow> unit result \<times> state) \<Rightarrow> (state \<Rightarrow> 'a result \<times> state) \<Rightarrow>
   state \<Rightarrow> 'a result \<times> state" where
  "and_then f g s =
     (case f s of
        (Halt h, s1) \<Rightarrow> (Halt h, s1)
      | (Return u, s1) \<Rightarrow> g s1)"

text \<open>
  \<^verbatim>\<open>init_device\<close>, in the parts of its body and in their order: the capability
  checks, the best-effort cropping (every failure ignored), the format, and the call
  of \<^verbatim>\<open>init_mmap\<close>.
\<close>

definition init_device_caps :: "state \<Rightarrow> unit result \<times> state" where
  "init_device_caps s =
     (case xioctl (fd s) VIDIOC_QUERYCAP s of
        (Halt h, s1) \<Rightarrow> (Halt h, s1)
      | (Return cap, s1) \<Rightarrow>
          if ret cap = -1 then
            (if errno s1 = EINVAL then
               exit_with EXIT_FAILURE
                 (log_event (Fprintf Stderr (dev_name s1 @ '' is no V4L2 device\<newline>'')) s1)
             else errno_exit ''VIDIOC_QUERYCAP'' s1)
          else if capabilities cap AND V4L2_CAP_VIDEO_CAPTURE = 0 then
            exit_with EXIT_FAILURE
              (log_event (Fprintf Stderr
                 (dev_name s1 @ '' is no video capture device\<newline>'')) s1)
          else if capabilities cap AND V4L2_CAP_STREAMING = 0 then
            exit_with EXIT_FAILURE
              (log_event (Fprintf Stderr
                 (dev_name s1 @ '' does not support streaming i/o\<newline>'')) s1)
          else (Return (), s1))"

definition init_device_crop :: "state \<Rightarrow> unit result \<times> state" where
  "init_device_crop s =
     (case xioctl (fd s) VIDIOC_CROPCAP s of
        (Halt h, s1) \<Rightarrow> (Halt h, s1)
      | (Return cropcap, s1) \<Rightarrow>
          if ret cropcap = 0 then
            (case xioctl (fd s1) VIDIOC_S_CROP s1 of
               (Halt h, s2) \<Rightarrow> (Halt h, s2)
             | (Return r, s2) \<Rightarrow> (Return (), s2))
          else (Return (), s1))"

definition init_device_fmt :: "state \<Rightarrow> unit result \<times> state" where
  "init_device_fmt s =
     (if force_format s \<noteq> 0 then
        (case xioctl (fd s) (VIDIOC_S_FMT 640 480 V4L2_PIX_FMT_YUYV V4L2_FIELD_INTERLACED) s of
           (Halt h, s1) \<Rightarrow> (Halt h, s1)
         | (Return r, s1) \<Rightarrow>
             if ret r = -1 then errno_exit ''VIDIOC_S_FMT'' s1 else (Return (), s1))
      else
        (case xioctl (fd s) VIDIOC_G_FMT s of
           (Halt h, s1) \<Rightarrow> (Halt h, s1)
         | (Return r, s1) \<Rightarrow>
             if ret r = -1 then errno_exit ''VIDIOC_G_FMT'' s1 else (Return (), s1)))"

definition init_device :: "state \<Rightarrow> unit result \<times> state" where
  "init_device =
     and_then init_device_caps
       (and_then init_device_crop
         (and_then init_device_fmt init_mmap))"

definition close_device :: "state \<Rightarrow> unit result \<times> state" where
  "close_device s =
     (case invoke (C_close (fd s)) s of
        (Halt h, s1) \<Rightarrow> (Halt h, s1)
      | (Return r, s1) \<Rightarrow>
          if ret r = -1 then errno_exit ''close'' s1 else (Return (), s1\<lparr>fd := -1\<rparr>))"

definition open_device :: "state \<Rightarrow> unit result \<times> state" where
  "open_device s =
     (case invoke (C_stat (dev_name s)) s of
        (Halt h, s1) \<Rightarrow> (Halt h, s1)
      | (Return st, s1) \<Rightarrow>
          if ret st = -1 then
            exit_with EXIT_FAILURE
              (log_event (Fprintf_errno (''Cannot identify '' @ dev_name s1) (errno s1)) s1)
          else if \<not> st_ischr st then
            exit_with EXIT_FAILURE
              (log_event (Fprintf Stderr (dev_name s1 @ '' is no device\<newline>'')) s1)
          else
            (case invoke (C_open (dev_name s1)) s1 of
               (Halt h, s2) \<Rightarrow> (Halt h, s2)
             | (Return r, s2) \<Rightarrow>
                 (let s3 = s2\<lparr>fd := ret r\<rparr>
                  in if fd s3 = -1 then
                       exit_with EXIT_FAILURE
                         (log_event (Fprintf_errno (''Cannot open '' @ dev_name s3) (errno s3)) s3)
                     else (Return (), s3))))"

text \<open>
  The tables of the command line, as the source gives them: the short options, and
  the long options with \<^verbatim>\<open>has_arg\<close> and the value \<^verbatim>\<open>getopt_long\<close> returns for each
  (every \<^verbatim>\<open>flag\<close> is \<^verbatim>\<open>NULL\<close>).
\<close>

definition short_options :: string where
  "short_options = ''d:hmruofc:''"

definition long_options :: "(string \<times> bool \<times> char) list" where
  "long_options =
     [(''device'', True, CHR ''d''),
      (''help'', False, CHR ''h''),
      (''mmap'', False, CHR ''m''),
      (''output'', False, CHR ''o''),
      (''format'', False, CHR ''f''),
      (''count'', True, CHR ''c'')]"

text \<open>
  The option loop of \<^verbatim>\<open>main\<close>. The answer to \<^verbatim>\<open>getopt_long\<close> holds the value it
  returns and \<^verbatim>\<open>optarg\<close>; the answer to \<^verbatim>\<open>strtol\<close> the \<^verbatim>\<open>long\<close> it returns, which
  the assignment to the \<^verbatim>\<open>int\<close> \<open>frame_count\<close> cuts to 32 bits.
\<close>

function main_for :: "state \<Rightarrow> unit result \<times> state" where
  "main_for s =
     (case invoke C_getopt_long s of
        (Halt h, s1) \<Rightarrow> (Halt h, s1)
      | (Return g, s1) \<Rightarrow>
          (let c = ret g in
           if c = -1 then (Return (), s1)
           else if c = 0 then main_for s1
           else if c = of_char (CHR ''d'') then main_for (s1\<lparr>dev_name := optarg g\<rparr>)
           else if c = of_char (CHR ''h'') then
             exit_with EXIT_SUCCESS (log_event (Usage Stdout) s1)
           else if c = of_char (CHR ''o'') then main_for (s1\<lparr>out_buf := out_buf s1 + 1\<rparr>)
           else if c = of_char (CHR ''c'') then
             (case invoke (C_strtol (optarg g)) (s1\<lparr>errno := E_none\<rparr>) of
                (Halt h, s2) \<Rightarrow> (Halt h, s2)
              | (Return v, s2) \<Rightarrow>
                  (let s3 = s2\<lparr>frame_count := word_of_int (ret v)\<rparr>
                   in if errno s3 \<noteq> E_none then errno_exit (optarg g) s3
                      else main_for s3))
           else exit_with EXIT_FAILURE (log_event (Usage Stderr) s1)))"
  by pat_completeness auto
termination
  by (relation "measure (\<lambda>s. length (script s))")
     (auto dest!: invoke_Return_less)

declare main_for.simps [simp del]

definition main_end :: "state \<Rightarrow> int result \<times> state" where
  "main_end s = (Return 0, log_event (Fprintf Stderr ''\<newline>'') s)"

definition main :: "state \<Rightarrow> int result \<times> state" where
  "main s =
     and_then main_for
       (and_then open_device
         (and_then init_device
           (and_then start_capturing
             (and_then mainloop
               (and_then stop_capturing
                 (and_then uninit_device
                   (and_then close_device main_end)))))))
       (s\<lparr>dev_name := ''/dev/video0''\<rparr>)"

text \<open>The globals as their initialisers leave them, and nothing done yet.\<close>

definition initial_state :: "reply list \<Rightarrow> state" where
  "initial_state rs =
     \<lparr>dev_name = [], fd = -1, buffers = [], n_buffers = 0, out_buf = 0,
      force_format = 0, frame_count = 70, errno = E_none, script = rs, trace = []\<rparr>"

section \<open>Scripts and traces\<close>

text \<open>The state after the call \<open>c\<close> has been answered with the head of the script.\<close>

definition answered :: "libcall \<Rightarrow> reply \<Rightarrow> state \<Rightarrow> state" where
  "answered c r s =
     s\<lparr>script := tl (script s),
       trace := trace s @ [Call c r],
       errno := (if err r = E_none then errno s else err r)\<rparr>"

text \<open>An answer that fails with \<^verbatim>\<open>EINTR\<close>: the call was interrupted by a signal.\<close>

definition interrupted :: "reply \<Rightarrow> bool" where
  "interrupted r = (ret r = -1 \<and> err r = EINTR)"

text \<open>Answers for examples: a plain success, and a failure with an error number.\<close>

definition reply_ok :: reply where
  "reply_ok =
     \<lparr>ret = 0, err = E_none, st_ischr = False, capabilities = 0, count = 0, index = 0,
      bytesused = 0, length_q = 0, offset = 0, optarg = []\<rparr>"

definition reply_fail :: "error_number \<Rightarrow> reply" where
  "reply_fail e = reply_ok\<lparr>ret := -1, err := e\<rparr>"

text \<open>
  An example of the state in which \<^verbatim>\<open>mainloop\<close> runs: the device open, two buffers
  mapped, and a script still to come.
\<close>

definition streaming_example :: "32 word \<Rightarrow> reply list \<Rightarrow> state" where
  "streaming_example n rs =
     \<lparr>dev_name = ''/dev/video0'', fd = 3,
      buffers = [\<lparr>start = 4096, length_b = 100\<rparr>, \<lparr>start = 8192, length_b = 100\<rparr>],
      n_buffers = 2, out_buf = 0, force_format = 0, frame_count = n, errno = E_none,
      script = rs, trace = []\<rparr>"

lemma answered_simps [simp]:
  "script (answered c r s) = tl (script s)"
  "trace (answered c r s) = trace s @ [Call c r]"
  "errno (answered c r s) = (if err r = E_none then errno s else err r)"
  "fd (answered c r s) = fd s"
  "buffers (answered c r s) = buffers s"
  "n_buffers (answered c r s) = n_buffers s"
  "out_buf (answered c r s) = out_buf s"
  "force_format (answered c r s) = force_format s"
  "frame_count (answered c r s) = frame_count s"
  "dev_name (answered c r s) = dev_name s"
  by (simp_all add: answered_def)

lemma log_event_simps [simp]:
  "trace (log_event e s) = trace s @ [e]"
  "errno (log_event e s) = errno s"
  "fd (log_event e s) = fd s"
  "buffers (log_event e s) = buffers s"
  "n_buffers (log_event e s) = n_buffers s"
  "out_buf (log_event e s) = out_buf s"
  "force_format (log_event e s) = force_format s"
  "frame_count (log_event e s) = frame_count s"
  "dev_name (log_event e s) = dev_name s"
  by (simp_all add: log_event_def)

lemma invoke_Cons:
  "script s = r # rs \<Longrightarrow> invoke c s = (Return r, answered c r s)"
  by (simp add: invoke_def answered_def)

lemma invoke_Nil:
  "script s = [] \<Longrightarrow> invoke c s = (Halt Blocked, s)"
  by (simp add: invoke_def)

lemma xioctl_retry:
  "script s = r # rs \<Longrightarrow> ret r = -1 \<Longrightarrow> errno (answered (C_ioctl fh rq) r s) = EINTR \<Longrightarrow>
   xioctl fh rq s = xioctl fh rq (answered (C_ioctl fh rq) r s)"
  by (subst xioctl.simps) (simp add: invoke_Cons)

lemma xioctl_done:
  "script s = r # rs \<Longrightarrow> \<not> (ret r = -1 \<and> errno (answered (C_ioctl fh rq) r s) = EINTR) \<Longrightarrow>
   xioctl fh rq s = (Return r, answered (C_ioctl fh rq) r s)"
  by (subst xioctl.simps) (auto simp: invoke_Cons)

lemma xioctl_Nil:
  "script s = [] \<Longrightarrow> xioctl fh rq s = (Halt Blocked, s)"
  by (subst xioctl.simps) (simp add: invoke_Nil)

lemma mainloop_while_pos:
  "0 < c \<Longrightarrow>
   mainloop_while c s =
     (case mainloop_for s of
        (Halt h, s1) \<Rightarrow> (Halt h, s1)
      | (Return u, s1) \<Rightarrow> mainloop_while (c - 1) s1)"
  by (subst mainloop_while.simps) simp

lemma mainloop_while_0: "mainloop_while 0 s = (Return (), s)"
  by (subst mainloop_while.simps) simp

section \<open>The readiness wait\<close>

text \<open>
  C8. In an iteration of the capture loop (the counter is positive) the wait is
  \<^verbatim>\<open>select\<close> on the device with a timeout of 2 seconds and 0 microseconds. When it
  returns 0 (nothing ready in time) the program prints \<^verbatim>\<open>select timeout\<close> and exits with
  code 1, without another wait. When it fails with \<^verbatim>\<open>EINTR\<close> the iteration starts again
  from the state after the call, with the same counter and no output. When it fails
  with any other error the program exits with code 1 through \<^verbatim>\<open>errno_exit\<close>.
\<close>

theorem readiness_wait_outcomes:
  assumes "script s = r # rs" and "0 < c"
  shows "(let s1 = answered (C_select (fd s + 1) 2 0) r s in
          (ret r = 0 \<longrightarrow>
             mainloop_while c s =
               (Halt (Exit 1), log_event (Fprintf Stderr ''select timeout\<newline>'') s1)) \<and>
          (ret r = -1 \<and> errno s1 = EINTR \<longrightarrow>
             mainloop_while c s = mainloop_while c s1) \<and>
          (ret r = -1 \<and> errno s1 \<noteq> EINTR \<longrightarrow>
             mainloop_while c s =
               (Halt (Exit 1), log_event (Fprintf_errno ''select'' (errno s1)) s1)))"
proof -
  let ?s1 = "answered (C_select (fd s + 1) 2 0) r s"
  have inv: "invoke (C_select (fd s + 1) 2 0) s = (Return r, ?s1)"
    using assms(1) by (rule invoke_Cons)
  have timeout: "mainloop_for s =
      (Halt (Exit 1), log_event (Fprintf Stderr ''select timeout\<newline>'') ?s1)"
    if "ret r = 0"
    using that inv
    by (subst mainloop_for.simps) (simp add: exit_with_def EXIT_FAILURE_def)
  have retry: "mainloop_for s = mainloop_for ?s1"
    if "ret r = -1" and "errno ?s1 = EINTR"
    using that inv by (subst mainloop_for.simps) simp
  have fatal: "mainloop_for s = (Halt (Exit 1), log_event (Fprintf_errno ''select'' (errno ?s1)) ?s1)"
    if "ret r = -1" and "errno ?s1 \<noteq> EINTR"
    using that inv
    by (subst mainloop_for.simps) (simp add: errno_exit_def exit_with_def EXIT_FAILURE_def)
  show ?thesis
    unfolding Let_def
    using timeout retry fatal assms(2)
    by (simp add: mainloop_while_pos)
qed

theorem readiness_wait_outcomes_witness:
  "mainloop (streaming_example 70 [reply_ok, reply_ok\<lparr>ret := 1\<rparr>]) =
     (Halt (Exit 1),
      log_event (Fprintf Stderr ''select timeout\<newline>'')
        (answered (C_select 4 2 0) reply_ok (streaming_example 70 [reply_ok, reply_ok\<lparr>ret := 1\<rparr>]))) \<and>
   mainloop (streaming_example 70 [reply_fail EINTR, reply_ok]) =
     mainloop (answered (C_select 4 2 0) (reply_fail EINTR)
                 (streaming_example 70 [reply_fail EINTR, reply_ok])) \<and>
   mainloop (streaming_example 70 [reply_fail EIO]) =
     (Halt (Exit 1),
      log_event (Fprintf_errno ''select'' EIO)
        (answered (C_select 4 2 0) (reply_fail EIO) (streaming_example 70 [reply_fail EIO])))"
proof -
  have c: "(0 :: 32 word) < 70" by simp
  have a: "script (streaming_example 70 [reply_ok, reply_ok\<lparr>ret := 1\<rparr>]) = reply_ok # [reply_ok\<lparr>ret := 1\<rparr>]"
    and b: "script (streaming_example 70 [reply_fail EINTR, reply_ok]) = reply_fail EINTR # [reply_ok]"
    and d: "script (streaming_example 70 [reply_fail EIO]) = reply_fail EIO # []"
    by (simp_all add: streaming_example_def)
  show ?thesis
    using readiness_wait_outcomes [OF a c] readiness_wait_outcomes [OF b c]
      readiness_wait_outcomes [OF d c]
    by (simp add: Let_def mainloop_def streaming_example_def reply_ok_def reply_fail_def)
qed

section \<open>The command line\<close>

lemma main_for_force_format:
  "main_for s = (res, s') \<Longrightarrow> force_format s' = force_format s"
proof (induction s rule: main_for.induct)
  case (1 s)
  show ?case
  proof (cases "script s")
    case Nil
    then show ?thesis
      using "1.prems" by (subst (asm) main_for.simps) (simp add: invoke_Nil)
  next
    case (Cons g rs)
    let ?s1 = "answered C_getopt_long g s"
    have inv: "invoke C_getopt_long s = (Return g, ?s1)"
      using Cons by (rule invoke_Cons)
    note run = "1.prems" [unfolded main_for.simps [of s], unfolded inv, simplified]
    consider (fin) "ret g = -1" | (zero) "ret g = 0"
      | (d) "ret g \<noteq> -1" "ret g \<noteq> 0" "ret g = of_char (CHR ''d'')"
      | (o) "ret g \<noteq> -1" "ret g \<noteq> 0" "ret g = of_char (CHR ''o'')"
      | (c) "ret g \<noteq> -1" "ret g \<noteq> 0" "ret g = of_char (CHR ''c'')"
      | (other) "ret g \<noteq> -1" "ret g \<noteq> 0" "ret g \<noteq> of_char (CHR ''d'')"
          "ret g \<noteq> of_char (CHR ''o'')" "ret g \<noteq> of_char (CHR ''c'')"
      by blast
    then show ?thesis
    proof cases
      case fin
      then show ?thesis using run by (auto simp: Let_def)
    next
      case zero
      then have "main_for ?s1 = (res, s')" using run by (simp add: Let_def)
      then have "force_format s' = force_format ?s1"
        using "1.IH"(1) [OF inv [symmetric] refl refl] zero by simp
      then show ?thesis by simp
    next
      case d
      then have "main_for (?s1\<lparr>dev_name := optarg g\<rparr>) = (res, s')"
        using run by (simp add: Let_def)
      then have "force_format s' = force_format (?s1\<lparr>dev_name := optarg g\<rparr>)"
        using "1.IH"(2) [OF inv [symmetric] refl refl] d by simp
      then show ?thesis by simp
    next
      case o
      then have "main_for (?s1\<lparr>out_buf := out_buf ?s1 + 1\<rparr>) = (res, s')"
        using run by (simp add: Let_def)
      then have "force_format s' = force_format (?s1\<lparr>out_buf := out_buf ?s1 + 1\<rparr>)"
        using "1.IH"(3) [OF inv [symmetric] refl refl] o by simp
      then show ?thesis by simp
    next
      case c
      show ?thesis
      proof (cases "script ?s1")
        case Nil
        then show ?thesis
          using run c by (auto simp: Let_def invoke_def)
      next
        case (Cons v vs)
        let ?s2 = "answered (C_strtol (optarg g)) v (?s1\<lparr>errno := E_none\<rparr>)"
        have inv2: "invoke (C_strtol (optarg g)) (?s1\<lparr>errno := E_none\<rparr>) = (Return v, ?s2)"
          using Cons by (intro invoke_Cons) simp
        let ?s3 = "?s2\<lparr>frame_count := word_of_int (ret v)\<rparr>"
        show ?thesis
        proof (cases "errno ?s3 = E_none")
          case True
          then have "main_for ?s3 = (res, s')"
            using run c inv2 by (simp add: Let_def)
          then have "force_format s' = force_format ?s3"
            using "1.IH"(4) [OF inv [symmetric] refl refl _ _ _ _ _ _ inv2 [symmetric] refl refl]
              c True
            by simp
          then show ?thesis by simp
        next
          case False
          then show ?thesis
            using run c inv2 by (auto simp: Let_def errno_exit_def exit_with_def)
        qed
      qed
    next
      case other
      then show ?thesis
        using run by (auto simp: Let_def exit_with_def split: if_splits)
    qed
  qed
qed

text \<open>
  C1. \<^verbatim>\<open>--format\<close> is in the table of long options with the value \<^verbatim>\<open>'f'\<close>, and the
  usage text documents it, but the \<^verbatim>\<open>switch\<close> of \<^verbatim>\<open>main\<close> has no \<^verbatim>\<open>case 'f'\<close>: when
  \<^verbatim>\<open>getopt_long\<close> returns \<^verbatim>\<open>'f'\<close> the default branch prints the usage on the standard
  error and exits with \<^verbatim>\<open>EXIT_FAILURE\<close>. Nothing is opened and no format is negotiated.
\<close>

theorem format_option_exits_with_failure:
  "map_of (map (\<lambda>(name, has_arg, val). (name, val)) long_options) ''format'' = Some (CHR ''f'') \<and>
   main (initial_state (reply_ok\<lparr>ret := of_char (CHR ''f'')\<rparr> # rs)) =
     (Halt (Exit 1),
      (initial_state rs)
        \<lparr>dev_name := ''/dev/video0'',
         trace := [Call C_getopt_long (reply_ok\<lparr>ret := of_char (CHR ''f'')\<rparr>), Usage Stderr]\<rparr>)"
  by (simp add: long_options_def main_def and_then_def main_for.simps invoke_def
      initial_state_def reply_ok_def exit_with_def EXIT_FAILURE_def log_event_def)

section \<open>A failed dequeue\<close>




section \<open>Interrupted ioctls\<close>

text \<open>The state after the call \<open>c\<close> has been made once for each of the answers \<open>rs\<close>.\<close>

definition answered_all :: "libcall \<Rightarrow> reply list \<Rightarrow> state \<Rightarrow> state" where
  "answered_all c rs s = fold (answered c) rs s"

lemma answered_all_Nil [simp]: "answered_all c [] s = s"
  by (simp add: answered_all_def)

lemma answered_all_Cons [simp]:
  "answered_all c (r # rs) s = answered_all c rs (answered c r s)"
  by (simp add: answered_all_def)

lemma answered_all_snoc:
  "answered_all c (rs @ [r]) s = answered c r (answered_all c rs s)"
  by (simp add: answered_all_def)

lemma answered_all_script [simp]:
  "script (answered_all c rs s) = drop (length rs) (script s)"
  by (induction rs arbitrary: s) (simp_all add: drop_Suc)

lemma answered_all_trace [simp]:
  "trace (answered_all c rs s) = trace s @ map (Call c) rs"
  by (induction rs arbitrary: s) simp_all

lemma answered_all_globals [simp]:
  "fd (answered_all c rs s) = fd s"
  "buffers (answered_all c rs s) = buffers s"
  "n_buffers (answered_all c rs s) = n_buffers s"
  "out_buf (answered_all c rs s) = out_buf s"
  "force_format (answered_all c rs s) = force_format s"
  "frame_count (answered_all c rs s) = frame_count s"
  "dev_name (answered_all c rs s) = dev_name s"
  by (induction rs arbitrary: s) simp_all

lemma xioctl_interrupted:
  "list_all interrupted rs \<Longrightarrow> script s = rs @ rest \<Longrightarrow>
   xioctl fh rq s = xioctl fh rq (answered_all (C_ioctl fh rq) rs s)"
proof (induction rs arbitrary: s)
  case Nil
  then show ?case by simp
next
  case (Cons r rs)
  have "xioctl fh rq s = xioctl fh rq (answered (C_ioctl fh rq) r s)"
    using Cons.prems by (intro xioctl_retry [of s r "rs @ rest"]) (simp_all add: interrupted_def)
  also have "\<dots> = xioctl fh rq (answered_all (C_ioctl fh rq) rs (answered (C_ioctl fh rq) r s))"
    using Cons.prems by (intro Cons.IH) simp_all
  finally show ?case by simp
qed

text \<open>
  An answer that ends the retry loop of \<^verbatim>\<open>xioctl\<close> whatever \<^verbatim>\<open>errno\<close> held before: a
  success, or a failure that sets an error number other than \<^verbatim>\<open>EINTR\<close>.
\<close>

definition final :: "reply \<Rightarrow> bool" where
  "final r = (ret r \<noteq> -1 \<or> (err r \<noteq> EINTR \<and> err r \<noteq> E_none))"

lemma xioctl_run:
  assumes "list_all interrupted rs" and "final r" and "script s = rs @ r # rest"
  shows "xioctl fh rq s = (Return r, answered_all (C_ioctl fh rq) (rs @ [r]) s)"
proof -
  let ?s1 = "answered_all (C_ioctl fh rq) rs s"
  have "xioctl fh rq s = xioctl fh rq ?s1"
    using assms(1,3) by (rule xioctl_interrupted)
  also have "\<dots> = (Return r, answered (C_ioctl fh rq) r ?s1)"
    using assms(2,3) by (intro xioctl_done [of _ _ rest]) (auto simp: final_def)
  finally show ?thesis by (simp add: answered_all_snoc)
qed

section \<open>Allocation of the buffer pool\<close>

text \<open>
  What the environment answers for one buffer of the pool: the interrupted attempts of
  \<^verbatim>\<open>VIDIOC_QUERYBUF\<close>, its final answer, and the answer of \<^verbatim>\<open>mmap\<close>. The buffer is
  mapped when the query and the mapping both succeed.
\<close>

type_synonym buffer_answers = "reply list \<times> reply \<times> reply"

fun buffer_replies :: "buffer_answers \<Rightarrow> reply list" where
  "buffer_replies (rs, qb, mm) = rs @ [qb, mm]"

fun mapped_ok :: "buffer_answers \<Rightarrow> bool" where
  "mapped_ok (rs, qb, mm) = (list_all interrupted rs \<and> ret qb \<noteq> -1 \<and> ret mm \<noteq> -1)"

fun mapped_buffer :: "buffer_answers \<Rightarrow> buffer" where
  "mapped_buffer (rs, qb, mm) = \<lparr>start = ret mm, length_b = ucast (length_q qb)\<rparr>"

text \<open>The calls the loop of \<^verbatim>\<open>init_mmap\<close> makes for these buffers, from index \<open>n\<close> on.\<close>

fun mapping_events :: "int \<Rightarrow> 32 word \<Rightarrow> buffer_answers list \<Rightarrow> event list" where
  "mapping_events fh n [] = []"
| "mapping_events fh n ((rs, qb, mm) # bs) =
     map (Call (C_ioctl fh (VIDIOC_QUERYBUF n))) (rs @ [qb]) @
     [Call (C_mmap (length_q qb) fh (offset qb)) mm] @
     mapping_events fh (n + 1) bs"

definition is_munmap :: "event \<Rightarrow> bool" where
  "is_munmap e = (case e of Call (C_munmap p l) r \<Rightarrow> True | _ \<Rightarrow> False)"

lemma mapping_events_no_munmap: "filter is_munmap (mapping_events fh n bs) = []"
  by (induction fh n bs rule: mapping_events.induct) (simp_all add: is_munmap_def)

lemma mapping_events_append:
  "mapping_events fh n (bs @ cs) =
     mapping_events fh n bs @ mapping_events fh (n + of_nat (length bs)) cs"
  by (induction fh n bs rule: mapping_events.induct) (simp_all add: add.assoc add.commute)

lemma unat_Suc_word:
  assumes "(n :: 32 word) < c"
  shows "unat (n + 1) = Suc (unat n)"
proof -
  have "unat n < unat c"
    using assms by (simp add: word_less_nat_alt)
  moreover have "unat c < 2 ^ 32"
    using unsigned_less [of c, where ?'a = nat] by simp
  ultimately have "unat n + unat (1 :: 32 word) < 2 ^ LENGTH(32)"
    by simp
  then have "unat (n + 1) = unat n + unat (1 :: 32 word)"
    by (simp add: unat_add_lem [THEN iffD1])
  then show ?thesis by simp
qed

lemma buffer_updates:
  "(b :: buffer)\<lparr>length_b := l, start := p\<rparr> = \<lparr>start = p, length_b = l\<rparr>"
  by (cases b) simp

text \<open>One round of the loop: the buffer at index \<open>n_buffers\<close> is queried and mapped.\<close>

lemma init_mmap_for_step:
  assumes ok: "list_all interrupted rs" "ret qb \<noteq> -1" "ret mm \<noteq> -1"
    and sc: "script s = rs @ qb # mm # rest"
    and lt: "n_buffers s < c" and len: "unat (n_buffers s) < length (buffers s)"
  shows "\<exists>s1. init_mmap_for c s = init_mmap_for c s1 \<and>
           script s1 = rest \<and>
           n_buffers s1 = n_buffers s + 1 \<and>
           buffers s1 = (buffers s)[unat (n_buffers s) := mapped_buffer (rs, qb, mm)] \<and>
           trace s1 = trace s @ mapping_events (fd s) (n_buffers s) [(rs, qb, mm)] \<and>
           fd s1 = fd s \<and> dev_name s1 = dev_name s \<and> out_buf s1 = out_buf s \<and>
           force_format s1 = force_format s \<and> frame_count s1 = frame_count s"
proof -
  let ?q = "C_ioctl (fd s) (VIDIOC_QUERYBUF (n_buffers s))"
  let ?s1 = "answered_all ?q (rs @ [qb]) s"
  let ?n = "unat (n_buffers s)"
  let ?s2 = "?s1\<lparr>buffers := (buffers ?s1)
                [?n := (buffers ?s1 ! ?n)\<lparr>length_b := ucast (length_q qb)\<rparr>]\<rparr>"
  let ?m = "C_mmap (length_q qb) (fd s) (offset qb)"
  let ?s3 = "answered ?m mm ?s2"
  let ?s4 = "?s3\<lparr>buffers := (buffers ?s3)[?n := (buffers ?s3 ! ?n)\<lparr>start := ret mm\<rparr>]\<rparr>"
  let ?s5 = "?s4\<lparr>n_buffers := n_buffers ?s4 + 1\<rparr>"
  have q: "xioctl (fd s) (VIDIOC_QUERYBUF (n_buffers s)) s = (Return qb, ?s1)"
    using ok(1,2) sc by (intro xioctl_run) (simp_all add: final_def)
  have "script ?s2 = mm # rest"
    using sc by simp
  then have m: "invoke ?m ?s2 = (Return mm, ?s3)"
    by (rule invoke_Cons)
  have "init_mmap_for c s = init_mmap_for c ?s5"
    using q m ok(2,3) lt len
    by (subst init_mmap_for.simps) (simp add: Let_def)
  moreover have "script ?s5 = rest"
    using sc by simp
  moreover have "buffers ?s5 = (buffers s)[?n := mapped_buffer (rs, qb, mm)]"
    using len by (simp add: buffer_updates)
  moreover have "trace ?s5 = trace s @ mapping_events (fd s) (n_buffers s) [(rs, qb, mm)]"
    by simp
  ultimately show ?thesis
    by (intro exI [of _ ?s5]) simp
qed

text \<open>The loop over a run of buffers that are all mapped.\<close>

lemma init_mmap_for_prefix:
  assumes "list_all mapped_ok bs"
    and "script s = concat (map buffer_replies bs) @ rest"
    and "unat (n_buffers s) + length bs \<le> unat c"
    and "length (buffers s) = unat c"
  shows "\<exists>s1. init_mmap_for c s = init_mmap_for c s1 \<and>
           script s1 = rest \<and>
           unat (n_buffers s1) = unat (n_buffers s) + length bs \<and>
           length (buffers s1) = unat c \<and>
           take (unat (n_buffers s)) (buffers s1) = take (unat (n_buffers s)) (buffers s) \<and>
           (\<forall>j < length bs. buffers s1 ! (unat (n_buffers s) + j) = mapped_buffer (bs ! j)) \<and>
           trace s1 = trace s @ mapping_events (fd s) (n_buffers s) bs \<and>
           fd s1 = fd s \<and> dev_name s1 = dev_name s \<and> out_buf s1 = out_buf s \<and>
           force_format s1 = force_format s \<and> frame_count s1 = frame_count s"
  using assms
proof (induction bs arbitrary: s)
  case Nil
  then show ?case by (intro exI [of _ s]) simp
next
  case (Cons b bs)
  obtain rs qb mm where b: "b = (rs, qb, mm)"
    by (cases b) auto
  have ok: "list_all interrupted rs" "ret qb \<noteq> -1" "ret mm \<noteq> -1"
    using Cons.prems(1) b by simp_all
  have sc: "script s = rs @ qb # mm # (concat (map buffer_replies bs) @ rest)"
    using Cons.prems(2) b by simp
  have lt: "n_buffers s < c"
    using Cons.prems(3) by (simp add: word_less_nat_alt)
  have len: "unat (n_buffers s) < length (buffers s)"
    using Cons.prems(3,4) by simp
  obtain s1 where s1: "init_mmap_for c s = init_mmap_for c s1"
    "script s1 = concat (map buffer_replies bs) @ rest"
    "n_buffers s1 = n_buffers s + 1"
    "buffers s1 = (buffers s)[unat (n_buffers s) := mapped_buffer (rs, qb, mm)]"
    "trace s1 = trace s @ mapping_events (fd s) (n_buffers s) [(rs, qb, mm)]"
    "fd s1 = fd s" "dev_name s1 = dev_name s" "out_buf s1 = out_buf s"
    "force_format s1 = force_format s" "frame_count s1 = frame_count s"
    using init_mmap_for_step [OF ok sc lt len] by blast
  have n1: "unat (n_buffers s1) = Suc (unat (n_buffers s))"
    using s1(3) lt by (simp add: unat_Suc_word)
  have "list_all mapped_ok bs"
    using Cons.prems(1) by simp
  moreover have "unat (n_buffers s1) + length bs \<le> unat c"
    using Cons.prems(3) n1 by simp
  moreover have "length (buffers s1) = unat c"
    using Cons.prems(4) s1(4) by simp
  ultimately obtain s2 where s2: "init_mmap_for c s1 = init_mmap_for c s2"
    "script s2 = rest"
    "unat (n_buffers s2) = unat (n_buffers s1) + length bs"
    "length (buffers s2) = unat c"
    "take (unat (n_buffers s1)) (buffers s2) = take (unat (n_buffers s1)) (buffers s1)"
    "\<forall>j < length bs. buffers s2 ! (unat (n_buffers s1) + j) = mapped_buffer (bs ! j)"
    "trace s2 = trace s1 @ mapping_events (fd s1) (n_buffers s1) bs"
    "fd s2 = fd s1" "dev_name s2 = dev_name s1" "out_buf s2 = out_buf s1"
    "force_format s2 = force_format s1" "frame_count s2 = frame_count s1"
    using Cons.IH [OF _ s1(2)] by blast
  let ?n = "unat (n_buffers s)"
  have tk: "take (Suc ?n) (buffers s2) = take (Suc ?n) (buffers s1)"
    using s2(5) n1 by simp
  have pre: "take ?n (buffers s2) = take ?n (buffers s)"
  proof -
    have "take ?n (buffers s2) = take ?n (take (Suc ?n) (buffers s2))"
      by (simp add: min_def)
    also have "\<dots> = take ?n (take (Suc ?n) (buffers s1))"
      using tk by simp
    also have "\<dots> = take ?n (buffers s)"
      using s1(4) by (simp add: min_def)
    finally show ?thesis .
  qed
  have at_n: "buffers s2 ! ?n = mapped_buffer b"
  proof -
    have "buffers s2 ! ?n = take (Suc ?n) (buffers s2) ! ?n"
      by simp
    also have "\<dots> = take (Suc ?n) (buffers s1) ! ?n"
      using tk by simp
    also have "\<dots> = mapped_buffer b"
      using s1(4) len b by simp
    finally show ?thesis .
  qed
  have nth: "\<forall>j < length (b # bs). buffers s2 ! (?n + j) = mapped_buffer ((b # bs) ! j)"
  proof (intro allI impI)
    fix j assume j: "j < length (b # bs)"
    show "buffers s2 ! (?n + j) = mapped_buffer ((b # bs) ! j)"
    proof (cases j)
      case 0
      then show ?thesis using at_n by simp
    next
      case (Suc k)
      then have "k < length bs" using j by simp
      then have "buffers s2 ! (unat (n_buffers s1) + k) = mapped_buffer (bs ! k)"
        using s2(6) by blast
      then show ?thesis using Suc n1 by simp
    qed
  qed
  have tr: "trace s2 = trace s @ mapping_events (fd s) (n_buffers s) (b # bs)"
    using s2(7) s1(5,6,3) b by simp
  show ?case
    using s1(1) s2(1,2,3,4) n1 pre nth tr s1(6-10) s2(8-12)
    by (intro exI [of _ s2]) simp
qed

text \<open>
  The reservation request: when the device grants \<open>count req\<close> buffers, at least 2,
  and \<^verbatim>\<open>calloc\<close> returns the array, the mapping loop starts with an array of that many
  zeroed descriptors and with \<open>n_buffers = 0\<close>.
\<close>

definition pool_reserved :: "reply list \<Rightarrow> reply \<Rightarrow> reply \<Rightarrow> state \<Rightarrow> state" where
  "pool_reserved rs req cal s =
     (answered (C_calloc (count req)) cal
        (answered_all (C_ioctl (fd s) (VIDIOC_REQBUFS 4)) (rs @ [req]) s))
       \<lparr>buffers := replicate (unat (count req)) \<lparr>start = 0, length_b = 0\<rparr>,
        n_buffers := 0\<rparr>"

lemma init_mmap_granted:
  assumes "script s = rs @ req # cal # rest" and "list_all interrupted rs"
    and "ret req \<noteq> -1" and "2 \<le> count req" and "ret cal \<noteq> 0"
  shows "init_mmap s = init_mmap_for (count req) (pool_reserved rs req cal s)"
proof -
  let ?s1 = "answered_all (C_ioctl (fd s) (VIDIOC_REQBUFS 4)) (rs @ [req]) s"
  have r: "xioctl (fd s) (VIDIOC_REQBUFS 4) s = (Return req, ?s1)"
    using assms(1,2,3) by (intro xioctl_run) (simp_all add: final_def)
  have "script ?s1 = cal # rest"
    using assms(1) by simp
  then have c: "invoke (C_calloc (count req)) ?s1 = (Return cal, answered (C_calloc (count req)) cal ?s1)"
    by (rule invoke_Cons)
  have "\<not> count req < 2"
    using assms(4) by simp
  then show ?thesis
    using r c assms(3,5) by (simp add: init_mmap_def pool_reserved_def)
qed

lemma pool_reserved_simps [simp]:
  "script (pool_reserved rs req cal s) = drop (Suc (Suc (length rs))) (script s)"
  "trace (pool_reserved rs req cal s) =
     trace s @ map (Call (C_ioctl (fd s) (VIDIOC_REQBUFS 4))) (rs @ [req]) @
     [Call (C_calloc (count req)) cal]"
  "buffers (pool_reserved rs req cal s) = replicate (unat (count req)) \<lparr>start = 0, length_b = 0\<rparr>"
  "n_buffers (pool_reserved rs req cal s) = 0"
  "fd (pool_reserved rs req cal s) = fd s"
  "dev_name (pool_reserved rs req cal s) = dev_name s"
  "out_buf (pool_reserved rs req cal s) = out_buf s"
  "force_format (pool_reserved rs req cal s) = force_format s"
  "frame_count (pool_reserved rs req cal s) = frame_count s"
  by (simp_all add: pool_reserved_def drop_Suc tl_drop)

lemma init_mmap_for_end:
  "\<not> n_buffers s < c \<Longrightarrow> init_mmap_for c s = (Return (), s)"
  by (subst init_mmap_for.simps) simp

text \<open>
  C6. \<^verbatim>\<open>init_mmap\<close> asks for 4 buffers. When the device grants \<open>count req\<close> of them, at
  least 2 (after any number of interrupted attempts), \<^verbatim>\<open>calloc\<close> returns the array, and
  for each index the query and the mapping succeed, \<^verbatim>\<open>init_mmap\<close> returns with
  \<open>n_buffers\<close> equal to the granted count, an array of that many descriptors, and in
  each descriptor the length the device reported for that index (\<open>length_q\<close> of the
  answer to \<^verbatim>\<open>VIDIOC_QUERYBUF\<close>, which is also the length passed to \<^verbatim>\<open>mmap\<close>) and the
  address \<^verbatim>\<open>mmap\<close> returned. The other ways allocation can end are the fatal exits.
\<close>

theorem pool_size_is_granted_count:
  assumes "script s = rs @ req # cal # concat (map buffer_replies bs) @ rest"
    and "list_all interrupted rs" and "ret req \<noteq> -1" and "2 \<le> count req"
    and "ret cal \<noteq> 0"
    and "list_all mapped_ok bs" and "length bs = unat (count req)"
  shows "\<exists>s'. init_mmap s = (Return (), s') \<and>
           n_buffers s' = count req \<and>
           length (buffers s') = unat (count req) \<and>
           (\<forall>j < unat (count req).
              length_b (buffers s' ! j) = ucast (length_q (fst (snd (bs ! j)))) \<and>
              start (buffers s' ! j) = ret (snd (snd (bs ! j)))) \<and>
           script s' = rest \<and>
           trace s' =
             trace s @ map (Call (C_ioctl (fd s) (VIDIOC_REQBUFS 4))) (rs @ [req]) @
             [Call (C_calloc (count req)) cal] @ mapping_events (fd s) 0 bs"
proof -
  let ?s0 = "pool_reserved rs req cal s"
  have start: "init_mmap s = init_mmap_for (count req) ?s0"
    using assms(1-5) by (rule init_mmap_granted)
  have sc: "script ?s0 = concat (map buffer_replies bs) @ rest"
    using assms(1) by simp
  have "unat (n_buffers ?s0) + length bs \<le> unat (count req)"
    and "length (buffers ?s0) = unat (count req)"
    using assms(7) by simp_all
  from init_mmap_for_prefix [OF assms(6) sc this]
  obtain s1 where s1: "init_mmap_for (count req) ?s0 = init_mmap_for (count req) s1"
    "script s1 = rest"
    "unat (n_buffers s1) = unat (n_buffers ?s0) + length bs"
    "length (buffers s1) = unat (count req)"
    "\<forall>j < length bs. buffers s1 ! (unat (n_buffers ?s0) + j) = mapped_buffer (bs ! j)"
    "trace s1 = trace ?s0 @ mapping_events (fd ?s0) (n_buffers ?s0) bs"
    by blast
  have n: "n_buffers s1 = count req"
    using s1(3) assms(7) by (simp add: word_unat_eq_iff)
  then have fin: "init_mmap_for (count req) s1 = (Return (), s1)"
    by (simp add: init_mmap_for_end)
  have each: "length_b (buffers s1 ! j) = ucast (length_q (fst (snd (bs ! j)))) \<and>
      start (buffers s1 ! j) = ret (snd (snd (bs ! j)))" if "j < unat (count req)" for j
  proof -
    have "buffers s1 ! j = mapped_buffer (bs ! j)"
      using s1(5) that assms(7) by simp
    then show ?thesis
      by (cases "bs ! j") simp
  qed
  show ?thesis
    using start s1(1,2,4,6) fin n each
    by (intro exI [of _ s1]) simp
qed

text \<open>
  Scenario A: 4 buffers asked for, 3 granted, each of 4096 bytes; the second query is
  interrupted once.
\<close>

theorem pool_size_is_granted_count_witness:
  "\<exists>s'. init_mmap (streaming_example 70
            ([reply_ok\<lparr>count := 3\<rparr>, reply_ok\<lparr>ret := 24576\<rparr>] @
             concat (map buffer_replies
               [([], reply_ok\<lparr>length_q := 4096, offset := 0\<rparr>, reply_ok\<lparr>ret := 65536\<rparr>),
                ([reply_fail EINTR], reply_ok\<lparr>length_q := 4096, offset := 4096\<rparr>,
                   reply_ok\<lparr>ret := 69632\<rparr>),
                ([], reply_ok\<lparr>length_q := 4096, offset := 8192\<rparr>, reply_ok\<lparr>ret := 73728\<rparr>)]))) =
          (Return (), s') \<and>
        n_buffers s' = 3 \<and> length (buffers s') = 3 \<and>
        buffers s' = [\<lparr>start = 65536, length_b = 4096\<rparr>, \<lparr>start = 69632, length_b = 4096\<rparr>,
                      \<lparr>start = 73728, length_b = 4096\<rparr>] \<and>
        script s' = []"
proof -
  let ?bs = "[([], reply_ok\<lparr>length_q := 4096, offset := 0\<rparr>, reply_ok\<lparr>ret := 65536\<rparr>),
              ([reply_fail EINTR], reply_ok\<lparr>length_q := 4096, offset := 4096\<rparr>,
                 reply_ok\<lparr>ret := 69632\<rparr>),
              ([], reply_ok\<lparr>length_q := 4096, offset := 8192\<rparr>, reply_ok\<lparr>ret := 73728\<rparr>)]"
  let ?req = "reply_ok\<lparr>count := 3\<rparr>"
  let ?cal = "reply_ok\<lparr>ret := 24576\<rparr>"
  let ?s = "streaming_example 70 ([?req, ?cal] @ concat (map buffer_replies ?bs))"
  have a: "script ?s = [] @ ?req # ?cal # concat (map buffer_replies ?bs) @ []"
    by (simp add: streaming_example_def)
  have b: "list_all interrupted []" by simp
  have c: "ret ?req \<noteq> -1" "2 \<le> count ?req" "ret ?cal \<noteq> 0"
    by (simp_all add: reply_ok_def)
  have d: "list_all mapped_ok ?bs"
    by (simp add: interrupted_def reply_ok_def reply_fail_def)
  have e: "length ?bs = unat (count ?req)"
    by (simp add: reply_ok_def)
  obtain s' where s': "init_mmap ?s = (Return (), s')" "n_buffers s' = count ?req"
    "length (buffers s') = unat (count ?req)"
    "\<forall>j < unat (count ?req).
        length_b (buffers s' ! j) = ucast (length_q (fst (snd (?bs ! j)))) \<and>
        start (buffers s' ! j) = ret (snd (snd (?bs ! j)))"
    "script s' = []"
    using pool_size_is_granted_count [OF a b c d e] by blast
  have len: "length (buffers s') = 3"
    using s'(3) by (simp add: reply_ok_def)
  have "buffers s' ! 0 = \<lparr>start = 65536, length_b = 4096\<rparr>"
    and "buffers s' ! 1 = \<lparr>start = 69632, length_b = 4096\<rparr>"
    and "buffers s' ! 2 = \<lparr>start = 73728, length_b = 4096\<rparr>"
    using s'(4) [rule_format, of 0] s'(4) [rule_format, of 1] s'(4) [rule_format, of 2]
    by (simp_all add: reply_ok_def)
  then have "buffers s' = [\<lparr>start = 65536, length_b = 4096\<rparr>, \<lparr>start = 69632, length_b = 4096\<rparr>,
       \<lparr>start = 73728, length_b = 4096\<rparr>]"
    using len by (intro nth_equalityI) (auto simp: less_Suc_eq numeral_3_eq_3 numeral_2_eq_2)
  then show ?thesis
    using s'(1,2,5) len by (intro exI [of _ s']) (simp add: reply_ok_def)
qed

section \<open>The run of main around init_mmap\<close>

text \<open>
  \<^verbatim>\<open>main\<close> up to the call of \<^verbatim>\<open>init_mmap\<close> (the options, \<^verbatim>\<open>open_device\<close>, and
  \<^verbatim>\<open>init_device\<close> up to the format), and \<^verbatim>\<open>main\<close> after it.
\<close>

definition before_init_mmap :: "state \<Rightarrow> unit result \<times> state" where
  "before_init_mmap s =
     and_then main_for
       (and_then open_device
         (and_then init_device_caps
           (and_then init_device_crop init_device_fmt)))
       (s\<lparr>dev_name := ''/dev/video0''\<rparr>)"

definition after_init_mmap :: "state \<Rightarrow> int result \<times> state" where
  "after_init_mmap =
     and_then start_capturing
       (and_then mainloop
         (and_then stop_capturing
           (and_then uninit_device
             (and_then close_device main_end))))"

lemma main_split:
  "main s =
     (case before_init_mmap s of
        (Halt h, s1) \<Rightarrow> (Halt h, s1)
      | (Return u, s1) \<Rightarrow>
          (case init_mmap s1 of
             (Halt h, s2) \<Rightarrow> (Halt h, s2)
           | (Return u, s2) \<Rightarrow> after_init_mmap s2))"
  by (simp add: main_def before_init_mmap_def after_init_mmap_def init_device_def and_then_def
      split: prod.splits result.splits)

lemma main_halts_in_init_mmap:
  "before_init_mmap s0 = (Return (), s) \<Longrightarrow> init_mmap s = (Halt h, s') \<Longrightarrow>
   main s0 = (Halt h, s')"
  by (simp add: main_split)

text \<open>
  C7. Whenever the run of \<^verbatim>\<open>main\<close> reaches \<^verbatim>\<open>init_mmap\<close> and the device answers the
  reservation request (after any number of interrupted attempts) with a count below 2,
  the program prints \<^verbatim>\<open>Insufficient buffer memory\<close> on the standard error and exits with
  code 1. The diagnostic is the last event of the run: nothing is allocated or mapped
  (the descriptors are as before), no buffer is queued or dequeued, and the rest of the
  script is never asked for.
\<close>

theorem insufficient_buffers_is_fatal:
  assumes "before_init_mmap s0 = (Return (), s)"
    and "script s = rs @ req # rest" and "list_all interrupted rs"
    and "ret req \<noteq> -1" and "count req < 2"
  shows "\<exists>s'. main s0 = (Halt (Exit 1), s') \<and>
           script s' = rest \<and>
           trace s' =
             trace s @ map (Call (C_ioctl (fd s) (VIDIOC_REQBUFS 4))) (rs @ [req]) @
             [Fprintf Stderr (''Insufficient buffer memory on '' @ dev_name s @ ''\<newline>'')] \<and>
           buffers s' = buffers s \<and> n_buffers s' = n_buffers s"
proof -
  let ?s1 = "answered_all (C_ioctl (fd s) (VIDIOC_REQBUFS 4)) (rs @ [req]) s"
  let ?s2 = "log_event (Fprintf Stderr
      (''Insufficient buffer memory on '' @ dev_name s @ ''\<newline>'')) ?s1"
  have r: "xioctl (fd s) (VIDIOC_REQBUFS 4) s = (Return req, ?s1)"
    using assms(2,3,4) by (intro xioctl_run) (simp_all add: final_def)
  have "init_mmap s = (Halt (Exit 1), ?s2)"
    using r assms(4,5) by (simp add: init_mmap_def exit_with_def EXIT_FAILURE_def)
  then have "main s0 = (Halt (Exit 1), ?s2)"
    using assms(1) by (rule main_halts_in_init_mmap [rotated])
  moreover have "script ?s2 = rest"
    using assms(2) by simp
  ultimately show ?thesis
    by (intro exI [of _ ?s2]) simp
qed

text \<open>
  Scenario B: the default device, no options, a capture device with streaming, and a
  grant of one buffer; the answers a mapping would have used are left in the script.
\<close>

definition scenario_setup :: "reply list" where
  "scenario_setup =
     [reply_ok\<lparr>ret := -1\<rparr>,
      reply_ok\<lparr>st_ischr := True\<rparr>,
      reply_ok\<lparr>ret := 3\<rparr>,
      reply_ok\<lparr>capabilities := 0x04000001\<rparr>,
      reply_fail EINVAL,
      reply_ok]"

definition scenario_ready :: "reply list \<Rightarrow> state" where
  "scenario_ready rs =
     \<lparr>dev_name = ''/dev/video0'', fd = 3, buffers = [], n_buffers = 0, out_buf = 0,
      force_format = 0, frame_count = 70, errno = EINVAL, script = rs,
      trace =
        [Call C_getopt_long (reply_ok\<lparr>ret := -1\<rparr>),
         Call (C_stat ''/dev/video0'') (reply_ok\<lparr>st_ischr := True\<rparr>),
         Call (C_open ''/dev/video0'') (reply_ok\<lparr>ret := 3\<rparr>),
         Call (C_ioctl 3 VIDIOC_QUERYCAP) (reply_ok\<lparr>capabilities := 0x04000001\<rparr>),
         Call (C_ioctl 3 VIDIOC_CROPCAP) (reply_fail EINVAL),
         Call (C_ioctl 3 VIDIOC_G_FMT) reply_ok]\<rparr>"

lemma scenario_setup_run:
  "before_init_mmap (initial_state (scenario_setup @ rs)) = (Return (), scenario_ready rs)"
  by (simp add: before_init_mmap_def and_then_def scenario_setup_def initial_state_def
      main_for.simps open_device_def init_device_caps_def init_device_crop_def
      init_device_fmt_def xioctl.simps invoke_def reply_ok_def reply_fail_def
      V4L2_CAP_VIDEO_CAPTURE_def V4L2_CAP_STREAMING_def scenario_ready_def)

theorem insufficient_buffers_is_fatal_witness:
  "\<exists>s'. main (initial_state (scenario_setup @
             [reply_ok\<lparr>count := 1\<rparr>, reply_ok\<lparr>ret := 24576\<rparr>,
              reply_ok\<lparr>length_q := 4096\<rparr>, reply_ok\<lparr>ret := 65536\<rparr>])) =
          (Halt (Exit 1), s') \<and>
        script s' = [reply_ok\<lparr>ret := 24576\<rparr>, reply_ok\<lparr>length_q := 4096\<rparr>,
                     reply_ok\<lparr>ret := 65536\<rparr>] \<and>
        trace s' =
          trace (scenario_ready []) @
          [Call (C_ioctl 3 (VIDIOC_REQBUFS 4)) (reply_ok\<lparr>count := 1\<rparr>),
           Fprintf Stderr ''Insufficient buffer memory on /dev/video0\<newline>''] \<and>
        buffers s' = [] \<and> n_buffers s' = 0"
proof -
  let ?rest = "[reply_ok\<lparr>ret := 24576\<rparr>, reply_ok\<lparr>length_q := 4096\<rparr>, reply_ok\<lparr>ret := 65536\<rparr>]"
  let ?req = "reply_ok\<lparr>count := 1\<rparr>"
  let ?s = "scenario_ready (?req # ?rest)"
  have a: "before_init_mmap (initial_state (scenario_setup @ ?req # ?rest)) = (Return (), ?s)"
    by (rule scenario_setup_run)
  have b: "script ?s = [] @ ?req # ?rest"
    by (simp add: scenario_ready_def)
  have c: "list_all interrupted []" by simp
  have d: "ret ?req \<noteq> -1" "count ?req < 2"
    by (simp_all add: reply_ok_def)
  show ?thesis
    using insufficient_buffers_is_fatal [OF a b c d]
    by (simp add: scenario_ready_def)
qed

section \<open>A failed mapping\<close>

definition is_mapping :: "event \<Rightarrow> bool" where
  "is_mapping e = (case e of Call (C_mmap l fh off) r \<Rightarrow> ret r \<noteq> -1 | _ \<Rightarrow> False)"

lemma init_mmap_for_mmap_fails:
  assumes ok: "list_all interrupted rs" "ret qb \<noteq> -1" "ret mm = -1"
    and sc: "script s = rs @ qb # mm # rest"
    and lt: "n_buffers s < c" and len: "unat (n_buffers s) < length (buffers s)"
  shows "\<exists>s'. init_mmap_for c s = (Halt (Exit 1), s') \<and>
           script s' = rest \<and>
           n_buffers s' = n_buffers s \<and>
           take (unat (n_buffers s)) (buffers s') = take (unat (n_buffers s)) (buffers s) \<and>
           trace s' = trace s @ mapping_events (fd s) (n_buffers s) [(rs, qb, mm)] @
                      [Fprintf_errno ''mmap'' (errno s')]"
proof -
  let ?q = "C_ioctl (fd s) (VIDIOC_QUERYBUF (n_buffers s))"
  let ?s1 = "answered_all ?q (rs @ [qb]) s"
  let ?n = "unat (n_buffers s)"
  let ?s2 = "?s1\<lparr>buffers := (buffers ?s1)
                [?n := (buffers ?s1 ! ?n)\<lparr>length_b := ucast (length_q qb)\<rparr>]\<rparr>"
  let ?m = "C_mmap (length_q qb) (fd s) (offset qb)"
  let ?s3 = "answered ?m mm ?s2"
  let ?s4 = "?s3\<lparr>buffers := (buffers ?s3)[?n := (buffers ?s3 ! ?n)\<lparr>start := ret mm\<rparr>]\<rparr>"
  let ?s5 = "log_event (Fprintf_errno ''mmap'' (errno ?s4)) ?s4"
  have q: "xioctl (fd s) (VIDIOC_QUERYBUF (n_buffers s)) s = (Return qb, ?s1)"
    using ok(1,2) sc by (intro xioctl_run) (simp_all add: final_def)
  have "script ?s2 = mm # rest"
    using sc by simp
  then have m: "invoke ?m ?s2 = (Return mm, ?s3)"
    by (rule invoke_Cons)
  have "init_mmap_for c s = (Halt (Exit 1), ?s5)"
    using q m ok(2,3) lt len
    by (subst init_mmap_for.simps) (simp add: Let_def errno_exit_def exit_with_def EXIT_FAILURE_def)
  moreover have "script ?s5 = rest"
    using sc by simp
  moreover have "trace ?s5 = trace s @ mapping_events (fd s) (n_buffers s) [(rs, qb, mm)] @
      [Fprintf_errno ''mmap'' (errno ?s5)]"
    by simp
  ultimately show ?thesis
    by (intro exI [of _ ?s5]) simp
qed

text \<open>
  C2, as the code has it. Whenever the run of \<^verbatim>\<open>main\<close> reaches \<^verbatim>\<open>init_mmap\<close>, the pool is
  reserved, the buffers \<open>bs\<close> are mapped and the mapping for the next index fails, the
  program exits with code 1 through \<^verbatim>\<open>errno_exit("mmap")\<close>. The diagnostic is the last
  event: no \<^verbatim>\<open>munmap\<close> is made, and the descriptors of the earlier indices still hold
  their mappings when the process ends.
\<close>

theorem failed_mapping_exits_without_release:
  assumes "before_init_mmap s0 = (Return (), s)"
    and "script s = rs @ req # cal # concat (map buffer_replies bs) @ qs @ qb # mm # rest"
    and "list_all interrupted rs" and "ret req \<noteq> -1" and "2 \<le> count req"
    and "ret cal \<noteq> 0"
    and "list_all mapped_ok bs" and "length bs < unat (count req)"
    and "list_all interrupted qs" and "ret qb \<noteq> -1" and "ret mm = -1"
  shows "\<exists>s'. main s0 = (Halt (Exit 1), s') \<and>
           script s' = rest \<and>
           trace s' =
             trace s @ map (Call (C_ioctl (fd s) (VIDIOC_REQBUFS 4))) (rs @ [req]) @
             [Call (C_calloc (count req)) cal] @
             mapping_events (fd s) 0 (bs @ [(qs, qb, mm)]) @
             [Fprintf_errno ''mmap'' (errno s')] \<and>
           filter is_munmap (trace s') = filter is_munmap (trace s) \<and>
           unat (n_buffers s') = length bs \<and>
           (\<forall>j < length bs. buffers s' ! j = mapped_buffer (bs ! j))"
proof -
  let ?c = "count req"
  let ?s0 = "pool_reserved rs req cal s"
  have start: "init_mmap s = init_mmap_for ?c ?s0"
    using assms(2-6) by (rule init_mmap_granted)
  have sc: "script ?s0 = concat (map buffer_replies bs) @ (qs @ qb # mm # rest)"
    using assms(2) by simp
  have "unat (n_buffers ?s0) + length bs \<le> unat ?c" and "length (buffers ?s0) = unat ?c"
    using assms(8) by simp_all
  from init_mmap_for_prefix [OF assms(7) sc this]
  obtain s1 where s1: "init_mmap_for ?c ?s0 = init_mmap_for ?c s1"
    "script s1 = qs @ qb # mm # rest"
    "unat (n_buffers s1) = unat (n_buffers ?s0) + length bs"
    "length (buffers s1) = unat ?c"
    "\<forall>j < length bs. buffers s1 ! (unat (n_buffers ?s0) + j) = mapped_buffer (bs ! j)"
    "trace s1 = trace ?s0 @ mapping_events (fd ?s0) (n_buffers ?s0) bs"
    "fd s1 = fd ?s0"
    by blast
  have n1: "unat (n_buffers s1) = length bs"
    using s1(3) by simp
  then have n1': "n_buffers s1 = of_nat (length bs)"
    by (simp flip: n1)
  have lt: "n_buffers s1 < ?c"
    using n1 assms(8) by (simp add: word_less_nat_alt)
  have len: "unat (n_buffers s1) < length (buffers s1)"
    using n1 s1(4) assms(8) by simp
  from init_mmap_for_mmap_fails [OF assms(9,10,11) s1(2) lt len]
  obtain s' where s': "init_mmap_for ?c s1 = (Halt (Exit 1), s')" "script s' = rest"
    "n_buffers s' = n_buffers s1"
    "take (unat (n_buffers s1)) (buffers s') = take (unat (n_buffers s1)) (buffers s1)"
    "trace s' = trace s1 @ mapping_events (fd s1) (n_buffers s1) [(qs, qb, mm)] @
                [Fprintf_errno ''mmap'' (errno s')]"
    by blast
  have "init_mmap s = (Halt (Exit 1), s')"
    using start s1(1) s'(1) by simp
  then have m: "main s0 = (Halt (Exit 1), s')"
    using assms(1) by (rule main_halts_in_init_mmap [rotated])
  have tr: "trace s' =
      trace s @ map (Call (C_ioctl (fd s) (VIDIOC_REQBUFS 4))) (rs @ [req]) @
      [Call (C_calloc ?c) cal] @ mapping_events (fd s) 0 (bs @ [(qs, qb, mm)]) @
      [Fprintf_errno ''mmap'' (errno s')]"
    using s'(5) s1(6,7) n1' by (simp add: mapping_events_append)
  have nomun: "filter is_munmap (trace s') = filter is_munmap (trace s)"
    by (subst tr) (simp add: mapping_events_no_munmap is_munmap_def del: mapping_events.simps)
  have held: "buffers s' ! j = mapped_buffer (bs ! j)" if "j < length bs" for j
  proof -
    have "buffers s' ! j = take (length bs) (buffers s') ! j"
      using that by simp
    also have "\<dots> = take (length bs) (buffers s1) ! j"
      using s'(4) n1 by simp
    also have "\<dots> = buffers s1 ! j"
      using that by simp
    also have "\<dots> = mapped_buffer (bs ! j)"
      using s1(5) that by simp
    finally show ?thesis .
  qed
  show ?thesis
    using m s'(2,3) tr nomun n1 held
    by (intro exI [of _ s']) simp
qed

text \<open>
  Two buffers granted, the first mapped at 65536, the mapping of the second refused.
\<close>

definition failed_mapping_script :: "reply list" where
  "failed_mapping_script =
     [reply_ok\<lparr>count := 2\<rparr>, reply_ok\<lparr>ret := 24576\<rparr>,
      reply_ok\<lparr>length_q := 4096\<rparr>, reply_ok\<lparr>ret := 65536\<rparr>,
      reply_ok\<lparr>length_q := 4096, offset := 4096\<rparr>, reply_fail (E_other 12)]"

theorem failed_mapping_exits_without_release_witness:
  "\<exists>s'. main (initial_state (scenario_setup @ failed_mapping_script)) = (Halt (Exit 1), s') \<and>
        script s' = [] \<and>
        filter is_munmap (trace s') = [] \<and>
        unat (n_buffers s') = 1 \<and>
        buffers s' ! 0 = \<lparr>start = 65536, length_b = 4096\<rparr>"
proof -
  let ?req = "reply_ok\<lparr>count := 2\<rparr>"
  let ?cal = "reply_ok\<lparr>ret := 24576\<rparr>"
  let ?bs = "[([], reply_ok\<lparr>length_q := 4096\<rparr>, reply_ok\<lparr>ret := 65536\<rparr>)]"
  let ?qb = "reply_ok\<lparr>length_q := 4096, offset := 4096\<rparr>"
  let ?mm = "reply_fail (E_other 12)"
  let ?s = "scenario_ready failed_mapping_script"
  have a: "before_init_mmap (initial_state (scenario_setup @ failed_mapping_script)) =
      (Return (), ?s)"
    by (rule scenario_setup_run)
  have b: "script ?s = [] @ ?req # ?cal # concat (map buffer_replies ?bs) @ [] @ ?qb # ?mm # []"
    by (simp add: scenario_ready_def failed_mapping_script_def)
  have c: "list_all interrupted []" by simp
  have d: "ret ?req \<noteq> -1" "2 \<le> count ?req" "ret ?cal \<noteq> 0"
    by (simp_all add: reply_ok_def)
  have e: "list_all mapped_ok ?bs" "length ?bs < unat (count ?req)"
    by (simp_all add: reply_ok_def)
  have f: "ret ?qb \<noteq> -1" "ret ?mm = -1"
    by (simp_all add: reply_ok_def reply_fail_def)
  have g: "filter is_munmap (trace ?s) = []"
    by (simp add: scenario_ready_def is_munmap_def)
  show ?thesis
    using failed_mapping_exits_without_release [OF a b c d e c f]
    apply (elim exE conjE)
    subgoal for s'
      apply (rule exI [of _ s'])
      apply (simp add: g)
      done
    done
qed

text \<open>
  The claim as the specification states it (the fatal exit releases the earlier
  mappings) fails on that run: the process exits with code 1, the mapping at 65536 was
  made, and the run holds no \<^verbatim>\<open>munmap\<close> at all.
\<close>

theorem failed_mapping_counterexample:
  "fst (main (initial_state (scenario_setup @ failed_mapping_script))) = Halt (Exit 1) \<and>
   filter is_mapping (trace (snd (main (initial_state (scenario_setup @ failed_mapping_script))))) =
     [Call (C_mmap 4096 3 0) (reply_ok\<lparr>ret := 65536\<rparr>)] \<and>
   filter is_munmap (trace (snd (main (initial_state (scenario_setup @ failed_mapping_script))))) = []"
proof -
  have "main (initial_state (scenario_setup @ failed_mapping_script)) =
      (case init_mmap (scenario_ready failed_mapping_script) of
         (Halt h, s2) \<Rightarrow> (Halt h, s2)
       | (Return u, s2) \<Rightarrow> after_init_mmap s2)"
    by (simp add: main_split scenario_setup_run)
  then show ?thesis
    by (simp add: init_mmap_def init_mmap_for.simps xioctl.simps invoke_def
        scenario_ready_def failed_mapping_script_def reply_ok_def reply_fail_def
        errno_exit_def exit_with_def EXIT_FAILURE_def log_event_def Let_def
        is_mapping_def is_munmap_def)
qed

section \<open>What every run of the capture loop looks like\<close>

text \<open>
  Whatever the environment answers, \<^verbatim>\<open>xioctl\<close> makes the same call again and again: every
  answer but the last is a failure, and the call either returns its last answer or is
  still waiting at the end of the script.
\<close>

lemma xioctl_answers:
  "xioctl fh rq s = (res, s') \<Longrightarrow>
   \<exists>rs. list_all (\<lambda>r. ret r = -1) rs \<and>
        (res = Halt Blocked \<and> s' = answered_all (C_ioctl fh rq) rs s \<or>
         (\<exists>r. res = Return r \<and> s' = answered_all (C_ioctl fh rq) (rs @ [r]) s))"
proof (induction fh rq s rule: xioctl.induct)
  case (1 fh rq s)
  show ?case
  proof (cases "script s")
    case Nil
    then have "res = Halt Blocked" and "s' = s"
      using "1.prems" by (simp_all add: xioctl_Nil)
    then show ?thesis
      by (intro exI [of _ "[]"]) simp
  next
    case (Cons r rest)
    let ?s1 = "answered (C_ioctl fh rq) r s"
    have inv: "invoke (C_ioctl fh rq) s = (Return r, ?s1)"
      using Cons by (rule invoke_Cons)
    show ?thesis
    proof (cases "ret r = -1 \<and> errno ?s1 = EINTR")
      case True
      then have "xioctl fh rq ?s1 = (res, s')"
        using "1.prems" xioctl_retry [OF Cons, of fh rq] by simp
      from "1.IH" [OF inv [symmetric] refl True this]
      obtain rs where rs: "list_all (\<lambda>r. ret r = -1) rs"
        "res = Halt Blocked \<and> s' = answered_all (C_ioctl fh rq) rs ?s1 \<or>
         (\<exists>r'. res = Return r' \<and> s' = answered_all (C_ioctl fh rq) (rs @ [r']) ?s1)"
        by blast
      show ?thesis
        using rs True by (intro exI [of _ "r # rs"]) auto
    next
      case False
      then have "res = Return r" and "s' = ?s1"
        using "1.prems" xioctl_done [OF Cons False] by simp_all
      then show ?thesis
        by (intro exI [of _ "[]"]) simp
    qed
  qed
qed

text \<open>
  The phases of the capture loop: no buffer in the hands of the program, the buffer
  \<open>i\<close> dequeued and not yet queued again, and the end of the run after a dequeue that
  reported an index outside the pool.
\<close>

datatype phase = Idle | Holding "32 word" | Dead

text \<open>
  The events the capture loop may produce in each phase, for a pool of \<open>n\<close> buffers
  with the descriptors \<open>bufs\<close>: a wait or a dequeue only with no buffer held; a
  successful dequeue holds the reported buffer, or ends the run when the index is not
  below \<open>n\<close>; the frame is written from the start of the held buffer only; the only buffer
  queued is the held one; nothing follows the end of the run.
\<close>

fun loop_step :: "32 word \<Rightarrow> buffer list \<Rightarrow> phase \<Rightarrow> event \<Rightarrow> phase option" where
  "loop_step n bufs Idle (Call (C_select nfds sec usec) r) = Some Idle"
| "loop_step n bufs Idle (Call (C_ioctl fh VIDIOC_DQBUF) r) =
     Some (if ret r = -1 then Idle else if index r < n then Holding (index r) else Dead)"
| "loop_step n bufs (Holding i) (Call (C_ioctl fh (VIDIOC_QBUF j)) r) =
     (if j = i then Some (if ret r = -1 then Holding i else Idle) else None)"
| "loop_step n bufs (Holding i) (Fwrite p sz) =
     (if p = start (bufs ! unat i) then Some (Holding i) else None)"
| "loop_step n bufs Dead e = None"
| "loop_step n bufs ph (Fflush st) = Some ph"
| "loop_step n bufs ph (Fprintf st msg) = Some ph"
| "loop_step n bufs ph (Fprintf_errno msg e) = Some ph"
| "loop_step n bufs ph e = None"

fun loop_run :: "32 word \<Rightarrow> buffer list \<Rightarrow> phase \<Rightarrow> event list \<Rightarrow> phase option" where
  "loop_run n bufs ph [] = Some ph"
| "loop_run n bufs ph (e # es) =
     (case loop_step n bufs ph e of
        None \<Rightarrow> None
      | Some ph' \<Rightarrow> loop_run n bufs ph' es)"

text \<open>A delivered frame is marked by one dot on the standard error.\<close>

definition deliveries :: "event list \<Rightarrow> nat" where
  "deliveries evs = length (filter (\<lambda>e. e = Fprintf Stderr ''.'') evs)"

lemma loop_run_append:
  "loop_run n bufs ph (es @ fs) =
     (case loop_run n bufs ph es of
        None \<Rightarrow> None
      | Some ph' \<Rightarrow> loop_run n bufs ph' fs)"
  by (induction es arbitrary: ph) (simp_all split: option.splits)

lemma loop_run_append_Some:
  "loop_run n bufs ph es = Some ph' \<Longrightarrow> loop_run n bufs ph (es @ fs) = loop_run n bufs ph' fs"
  by (simp add: loop_run_append)

lemma deliveries_append [simp]: "deliveries (es @ fs) = deliveries es + deliveries fs"
  by (simp add: deliveries_def)

lemma deliveries_Nil [simp]: "deliveries [] = 0"
  by (simp add: deliveries_def)

lemma deliveries_Cons [simp]:
  "deliveries (e # es) = (if e = Fprintf Stderr ''.'' then 1 else 0) + deliveries es"
  by (simp add: deliveries_def)

lemma deliveries_calls [simp]: "deliveries (map (Call c) rs) = 0"
  by (induction rs) simp_all

lemma loop_run_failed_dequeues:
  "list_all (\<lambda>r. ret r = -1) rs \<Longrightarrow>
   loop_run n bufs Idle (map (Call (C_ioctl fh VIDIOC_DQBUF)) rs) = Some Idle"
  by (induction rs) simp_all

lemma loop_run_failed_queues:
  "list_all (\<lambda>r. ret r = -1) rs \<Longrightarrow>
   loop_run n bufs (Holding i) (map (Call (C_ioctl fh (VIDIOC_QBUF i))) rs) = Some (Holding i)"
  by (induction rs) simp_all

lemma process_image_simps [simp]:
  "trace (process_image p sz s) =
     trace s @ (if out_buf s \<noteq> 0 then [Fwrite p sz] else []) @
     [Fflush Stderr, Fprintf Stderr ''.'', Fflush Stdout]"
  "errno (process_image p sz s) = errno s"
  "fd (process_image p sz s) = fd s"
  "buffers (process_image p sz s) = buffers s"
  "n_buffers (process_image p sz s) = n_buffers s"
  "out_buf (process_image p sz s) = out_buf s"
  "force_format (process_image p sz s) = force_format s"
  "frame_count (process_image p sz s) = frame_count s"
  "dev_name (process_image p sz s) = dev_name s"
  by (simp_all add: process_image_def Let_def)

text \<open>
  What a part of the loop leaves behind: the events \<open>evs\<close> added to the trace, the
  phase \<open>ph\<close> they lead to from \<open>Idle\<close>, and the pool untouched. The phase is \<open>Idle\<close>
  when the part returns, and \<open>Dead\<close> exactly when the assertion failed.
\<close>

definition loop_part :: "state \<Rightarrow> 'a result \<Rightarrow> state \<Rightarrow> event list \<Rightarrow> phase \<Rightarrow> bool" where
  "loop_part s res s' evs ph =
     (trace s' = trace s @ evs \<and>
      loop_run (n_buffers s) (buffers s) Idle evs = Some ph \<and>
      fd s' = fd s \<and> buffers s' = buffers s \<and> n_buffers s' = n_buffers s \<and>
      out_buf s' = out_buf s \<and>
      (case res of Return v \<Rightarrow> ph = Idle | Halt h \<Rightarrow> (h = Abort) = (ph = Dead)) \<and>
      (length (buffers s) = unat (n_buffers s) \<longrightarrow> res \<noteq> Halt Out_of_bounds))"

lemma read_frame_part:
  assumes "read_frame s = (res, s')"
  shows "\<exists>evs ph. loop_part s res s' evs ph \<and>
           (\<forall>v. res = Return v \<longrightarrow> (v = 0 \<or> v = 1) \<and> deliveries evs = nat v)"
proof -
  let ?dq = "C_ioctl (fd s) VIDIOC_DQBUF"
  obtain r1 s1 where x1: "xioctl (fd s) VIDIOC_DQBUF s = (r1, s1)"
    by (cases "xioctl (fd s) VIDIOC_DQBUF s") auto
  from xioctl_answers [OF x1]
  obtain rs where rs: "list_all (\<lambda>r. ret r = -1) rs"
    and alt: "r1 = Halt Blocked \<and> s1 = answered_all ?dq rs s \<or>
      (\<exists>r. r1 = Return r \<and> s1 = answered_all ?dq (rs @ [r]) s)"
    by blast
  note fails = loop_run_failed_dequeues [OF rs, of "n_buffers s" "buffers s" "fd s"]
  from alt show ?thesis
  proof (elim disjE conjE exE)
    assume "r1 = Halt Blocked" and s1: "s1 = answered_all ?dq rs s"
    then have "res = Halt Blocked" and "s' = s1"
      using assms x1 by (simp_all add: read_frame_def)
    then show ?thesis
      using s1 fails
      by (intro exI [of _ "map (Call ?dq) rs"] exI [of _ Idle]) (simp add: loop_part_def)
  next
    fix buf
    assume r1: "r1 = Return buf" and s1: "s1 = answered_all ?dq (rs @ [buf]) s"
    let ?e1 = "map (Call ?dq) (rs @ [buf])"
    have tr1: "trace s1 = trace s @ ?e1"
      using s1 by simp
    show ?thesis
    proof (cases "ret buf = -1")
      case True
      have run1: "loop_run (n_buffers s) (buffers s) Idle ?e1 = Some Idle"
        using rs True by (intro loop_run_failed_dequeues) simp
      show ?thesis
      proof (cases "errno s1 = EAGAIN")
        case eagain: True
        then have "res = Return 0" and "s' = s1"
          using assms x1 r1 True by (simp_all add: read_frame_def)
        then show ?thesis
          using s1 run1
          by (intro exI [of _ ?e1] exI [of _ Idle]) (simp add: loop_part_def)
      next
        case False
        then have "(res, s') = errno_exit ''VIDIOC_DQBUF'' s1"
          using assms x1 r1 True
          by (cases "errno s1") (simp_all add: read_frame_def)
        then have res: "res = Halt (Exit 1)"
          and s': "s' = log_event (Fprintf_errno ''VIDIOC_DQBUF'' (errno s1)) s1"
          by (simp_all add: errno_exit_def exit_with_def EXIT_FAILURE_def)
        have "loop_run (n_buffers s) (buffers s) Idle
            (?e1 @ [Fprintf_errno ''VIDIOC_DQBUF'' (errno s1)]) = Some Idle"
          using run1 by (simp add: loop_run_append_Some del: map_append)
        then show ?thesis
          using res s' s1
          by (intro exI [of _ "?e1 @ [Fprintf_errno ''VIDIOC_DQBUF'' (errno s1)]"] exI [of _ Idle])
             (simp add: loop_part_def)
      qed
    next
      case ok: False
      have runrs: "loop_run (n_buffers s) (buffers s) Idle (map (Call ?dq) rs) = Some Idle"
        by (rule fails)
      show ?thesis
      proof (cases "index buf < n_buffers s")
        case False
        then have "res = Halt Abort" and "s' = s1"
          using assms x1 r1 ok s1 by (simp_all add: read_frame_def)
        moreover have "loop_run (n_buffers s) (buffers s) Idle ?e1 = Some Dead"
          using runrs ok False by (simp add: loop_run_append_Some)
        ultimately show ?thesis
          using s1
          by (intro exI [of _ ?e1] exI [of _ Dead]) (simp add: loop_part_def)
      next
        case inrange: True
        have run1: "loop_run (n_buffers s) (buffers s) Idle ?e1 = Some (Holding (index buf))"
          using runrs ok inrange by (simp add: loop_run_append_Some)
        show ?thesis
        proof (cases "unat (index buf) < length (buffers s)")
          case False
          then have "res = Halt Out_of_bounds" and "s' = s1"
            using assms x1 r1 ok s1 inrange by (simp_all add: read_frame_def)
          moreover have "length (buffers s) \<noteq> unat (n_buffers s)"
            using False inrange by (auto simp: word_less_nat_alt)
          ultimately show ?thesis
            using s1 run1
            by (intro exI [of _ ?e1] exI [of _ "Holding (index buf)"]) (simp add: loop_part_def)
        next
          case inb: True
          let ?p = "start (buffers s ! unat (index buf))"
          let ?s2 = "process_image ?p (sint (bytesused buf)) s1"
          let ?e2 = "(if out_buf s \<noteq> 0 then [Fwrite ?p (sint (bytesused buf))] else []) @
                     [Fflush Stderr, Fprintf Stderr ''.'', Fflush Stdout]"
          let ?q = "C_ioctl (fd s) (VIDIOC_QBUF (index buf))"
          have tr2: "trace ?s2 = trace s @ ?e1 @ ?e2"
            using s1 by simp
          have run2: "loop_run (n_buffers s) (buffers s) Idle (?e1 @ ?e2) =
              Some (Holding (index buf))"
            using run1 by (simp add: loop_run_append_Some del: map_append)
          have d2: "deliveries (?e1 @ ?e2) = 1"
            by simp
          obtain r3 s3 where x3: "xioctl (fd s) (VIDIOC_QBUF (index buf)) ?s2 = (r3, s3)"
            by (cases "xioctl (fd s) (VIDIOC_QBUF (index buf)) ?s2") auto
          have rf: "read_frame s =
              (case (r3, s3) of
                 (Halt h, s3) \<Rightarrow> (Halt h, s3)
               | (Return q, s3) \<Rightarrow>
                   if ret q = -1 then errno_exit ''VIDIOC_QBUF'' s3 else (Return 1, s3))"
            using x1 r1 ok inrange inb s1 x3 by (simp add: read_frame_def Let_def)
          from xioctl_answers [OF x3]
          obtain qs where qs: "list_all (\<lambda>r. ret r = -1) qs"
            and alt3: "r3 = Halt Blocked \<and> s3 = answered_all ?q qs ?s2 \<or>
              (\<exists>r. r3 = Return r \<and> s3 = answered_all ?q (qs @ [r]) ?s2)"
            by blast
          note qfails = loop_run_failed_queues [OF qs, of "n_buffers s" "buffers s" "index buf" "fd s"]
          from alt3 show ?thesis
          proof (elim disjE conjE exE)
            assume "r3 = Halt Blocked" and s3: "s3 = answered_all ?q qs ?s2"
            then have "res = Halt Blocked" and "s' = s3"
              using assms rf by simp_all
            moreover have "loop_run (n_buffers s) (buffers s) Idle
                ((?e1 @ ?e2) @ map (Call ?q) qs) = Some (Holding (index buf))"
              using run2 qfails by (simp only: loop_run_append_Some)
            ultimately show ?thesis
              using s3 tr2
              by (intro exI [of _ "(?e1 @ ?e2) @ map (Call ?q) qs"] exI [of _ "Holding (index buf)"])
                 (simp add: loop_part_def s1)
          next
            fix q
            assume r3: "r3 = Return q" and s3: "s3 = answered_all ?q (qs @ [q]) ?s2"
            show ?thesis
            proof (cases "ret q = -1")
              case True
              then have res: "res = Halt (Exit 1)"
                and s': "s' = log_event (Fprintf_errno ''VIDIOC_QBUF'' (errno s3)) s3"
                using assms rf r3
                by (simp_all add: errno_exit_def exit_with_def EXIT_FAILURE_def)
              have "list_all (\<lambda>r. ret r = -1) (qs @ [q])"
                using qs True by simp
              then have "loop_run (n_buffers s) (buffers s) (Holding (index buf))
                  (map (Call ?q) (qs @ [q])) = Some (Holding (index buf))"
                by (rule loop_run_failed_queues)
              then have "loop_run (n_buffers s) (buffers s) Idle
                  (((?e1 @ ?e2) @ map (Call ?q) (qs @ [q])) @
                   [Fprintf_errno ''VIDIOC_QBUF'' (errno s3)]) = Some (Holding (index buf))"
                using run2 by (simp only: loop_run_append_Some) simp
              then show ?thesis
                using res s' s3 tr2
                by (intro exI [of _ "((?e1 @ ?e2) @ map (Call ?q) (qs @ [q])) @
                      [Fprintf_errno ''VIDIOC_QBUF'' (errno s3)]"]
                    exI [of _ "Holding (index buf)"])
                   (simp add: loop_part_def s1)
            next
              case False
              then have res: "res = Return 1" and s': "s' = s3"
                using assms rf r3 by simp_all
              have "loop_run (n_buffers s) (buffers s) (Holding (index buf))
                  (map (Call ?q) (qs @ [q])) = Some Idle"
                using qfails False by (simp add: loop_run_append_Some)
              then have "loop_run (n_buffers s) (buffers s) Idle
                  ((?e1 @ ?e2) @ map (Call ?q) (qs @ [q])) = Some Idle"
                using run2 by (simp only: loop_run_append_Some)
              moreover have "deliveries ((?e1 @ ?e2) @ map (Call ?q) (qs @ [q])) = 1"
                using d2 by (simp only: deliveries_append deliveries_calls)
              ultimately show ?thesis
                using res s' s3 tr2
                by (intro exI [of _ "(?e1 @ ?e2) @ map (Call ?q) (qs @ [q])"] exI [of _ Idle])
                   (simp add: loop_part_def s1 del: deliveries_append)
            qed
          qed
        qed
      qed
    qed
  qed
qed

lemma loop_part_trans:
  assumes "loop_part s (Return v) s1 es ph1" and "loop_part s1 res s' fs ph"
  shows "loop_part s res s' (es @ fs) ph"
  using assms by (auto simp: loop_part_def loop_run_append_Some)

lemma loop_part_refl: "loop_part s (Return v) s [] Idle"
  by (simp add: loop_part_def)

lemma loop_part_blocked: "loop_part s (Halt Blocked) s [] Idle"
  by (simp add: loop_part_def)

lemma loop_part_select:
  "loop_part s (Return v) (answered (C_select nfds sec usec) r s) [Call (C_select nfds sec usec) r] Idle"
  by (simp add: loop_part_def)

lemma loop_part_exit:
  "loop_part s (Halt (Exit k)) (log_event (Fprintf st msg) s) [Fprintf st msg] Idle"
  "loop_part s (Halt (Exit k)) (log_event (Fprintf_errno msg e) s) [Fprintf_errno msg e] Idle"
  by (simp_all add: loop_part_def)

lemma mainloop_for_part:
  "mainloop_for s = (res, s') \<Longrightarrow>
   \<exists>evs ph. loop_part s res s' evs ph \<and> (res = Return () \<longrightarrow> deliveries evs = 1)"
proof (induction s arbitrary: res s' rule: mainloop_for.induct)
  case (1 s)
  show ?case
  proof (cases "script s")
    case Nil
    then have "res = Halt Blocked" and "s' = s"
      using "1.prems" by (subst (asm) mainloop_for.simps, simp add: invoke_Nil)+
    then show ?thesis
      using loop_part_blocked [of s] by auto
  next
    case (Cons r rest)
    let ?sel = "C_select (fd s + 1) 2 0"
    let ?s1 = "answered ?sel r s"
    have inv: "invoke ?sel s = (Return r, ?s1)"
      using Cons by (rule invoke_Cons)
    note first = loop_part_select [of s "()" "fd s + 1" 2 0 r]
    note run = "1.prems" [unfolded mainloop_for.simps [of s], unfolded inv, simplified]
    consider (intr) "ret r = -1" "errno ?s1 = EINTR"
      | (fail) "ret r = -1" "errno ?s1 \<noteq> EINTR"
      | (timeout) "ret r = 0"
      | (ready) "ret r \<noteq> -1" "ret r \<noteq> 0"
      by fastforce
    then show ?thesis
    proof cases
      case intr
      then have "mainloop_for ?s1 = (res, s')"
        using run by simp
      from "1.IH"(1) [OF inv [symmetric] refl intr(1) intr(2) this]
      obtain evs ph where "loop_part ?s1 res s' evs ph" "res = Return () \<longrightarrow> deliveries evs = 1"
        by blast
      then show ?thesis
        using loop_part_trans [OF first]
        by (intro exI [of _ "[Call ?sel r] @ evs"] exI [of _ ph]) simp
    next
      case fail
      then have "res = Halt (Exit 1)"
        and "s' = log_event (Fprintf_errno ''select'' (errno ?s1)) ?s1"
        using run by (auto simp: errno_exit_def exit_with_def EXIT_FAILURE_def)
      then show ?thesis
        using loop_part_trans [OF first loop_part_exit(2)] by blast
    next
      case timeout
      then have "res = Halt (Exit 1)"
        and "s' = log_event (Fprintf Stderr ''select timeout\<newline>'') ?s1"
        using run by (auto simp: exit_with_def EXIT_FAILURE_def)
      then show ?thesis
        using loop_part_trans [OF first loop_part_exit(1)] by blast
    next
      case ready
      obtain rf s2 where rf: "read_frame ?s1 = (rf, s2)"
        by (cases "read_frame ?s1") auto
      from read_frame_part [OF rf]
      obtain evs1 ph1 where p1: "loop_part ?s1 rf s2 evs1 ph1"
        and d1: "\<forall>v. rf = Return v \<longrightarrow> (v = 0 \<or> v = 1) \<and> deliveries evs1 = nat v"
        by blast
      show ?thesis
      proof (cases rf)
        case (Halt h)
        then have "res = Halt h" and "s' = s2"
          using run ready rf by simp_all
        then show ?thesis
          using loop_part_trans [OF first p1] Halt
          by (intro exI [of _ "[Call ?sel r] @ evs1"] exI [of _ ph1]) (simp add: loop_part_def)
      next
        case (Return v)
        show ?thesis
        proof (cases "v = 0")
          case False
          then have "res = Return ()" and "s' = s2"
            using run ready rf Return by simp_all
          moreover have "deliveries evs1 = 1"
            using d1 Return False by auto
          ultimately show ?thesis
            using loop_part_trans [OF first p1] Return
            by (intro exI [of _ "[Call ?sel r] @ evs1"] exI [of _ ph1]) (simp add: loop_part_def)
        next
          case True
          then have "mainloop_for s2 = (res, s')"
            using run ready rf Return by simp
          from "1.IH"(2) [OF inv [symmetric] refl ready(1) ready(2) rf [symmetric] _ _]
            Return True this
          obtain evs ph where p2: "loop_part s2 res s' evs ph"
            and d2: "res = Return () \<longrightarrow> deliveries evs = 1"
            by blast
          have d0: "deliveries evs1 = 0"
            using d1 Return True by simp
          have "loop_part s res s' (([Call ?sel r] @ evs1) @ evs) ph"
            using loop_part_trans [OF loop_part_trans [OF first p1 [unfolded Return]] p2] .
          then show ?thesis
            using d0 d2
            by (intro exI [of _ "([Call ?sel r] @ evs1) @ evs"] exI [of _ ph]) simp
        qed
      qed
    qed
  qed
qed

lemma mainloop_while_part:
  "mainloop_while c s = (res, s') \<Longrightarrow>
   \<exists>evs ph. loop_part s res s' evs ph \<and> (res = Return () \<longrightarrow> deliveries evs = unat c)"
proof (induction c s arbitrary: res s' rule: mainloop_while.induct)
  case (1 c s)
  show ?case
  proof (cases "0 < c")
    case False
    then have "c = 0"
      by (simp add: word_greater_zero_iff)
    then have "res = Return ()" and "s' = s"
      using "1.prems" by (simp_all add: mainloop_while_0)
    then show ?thesis
      using loop_part_refl [of s "()"] \<open>c = 0\<close> by auto
  next
    case True
    obtain r1 s1 where r1: "mainloop_for s = (r1, s1)"
      by (cases "mainloop_for s") auto
    from mainloop_for_part [OF r1]
    obtain evs1 ph1 where p1: "loop_part s r1 s1 evs1 ph1"
      and d1: "r1 = Return () \<longrightarrow> deliveries evs1 = 1"
      by blast
    show ?thesis
    proof (cases r1)
      case (Halt h)
      then have "res = Halt h" and "s' = s1"
        using "1.prems" True r1 by (simp_all add: mainloop_while_pos)
      then show ?thesis
        using p1 Halt by auto
    next
      case (Return u)
      then have "mainloop_while (c - 1) s1 = (res, s')"
        using "1.prems" True r1 by (simp add: mainloop_while_pos)
      from "1.IH" [OF True r1 [symmetric] _ this] Return
      obtain evs ph where p2: "loop_part s1 res s' evs ph"
        and d2: "res = Return () \<longrightarrow> deliveries evs = unat (c - 1)"
        by blast
      have "unat c = Suc (unat (c - 1))"
        using True unat_pred_less [OF True] by (simp add: unat_minus_one word_greater_zero_iff)
      then show ?thesis
        using loop_part_trans [OF p1 [unfolded Return] p2] d1 d2 Return
        by (intro exI [of _ "evs1 @ evs"] exI [of _ ph]) simp
    qed
  qed
qed

lemma mainloop_part:
  "mainloop s = (res, s') \<Longrightarrow>
   \<exists>evs ph. loop_part s res s' evs ph \<and> (res = Return () \<longrightarrow> deliveries evs = unat (frame_count s))"
  unfolding mainloop_def by (rule mainloop_while_part)

section \<open>The index of a dequeued buffer\<close>

lemma loop_run_Dead:
  "loop_run n bufs Dead es = Some ph \<Longrightarrow> es = [] \<and> ph = Dead"
  by (cases es) simp_all

lemma loop_step_dequeue_outside:
  "loop_step n bufs ph (Call (C_ioctl fh VIDIOC_DQBUF) r) = Some ph1 \<Longrightarrow>
   ret r \<noteq> -1 \<Longrightarrow> \<not> index r < n \<Longrightarrow> ph1 = Dead"
  by (cases ph) (auto split: if_splits)

lemma loop_step_Fwrite:
  "loop_step n bufs ph (Fwrite p sz) = Some ph1 \<Longrightarrow>
   \<exists>i. ph = Holding i \<and> p = start (bufs ! unat i)"
  by (cases ph) (auto split: if_splits)

lemma loop_step_Holding:
  "loop_step n bufs ph e = Some (Holding j) \<Longrightarrow> (\<forall>i. ph = Holding i \<longrightarrow> i < n) \<Longrightarrow> j < n"
  by (cases "(n, bufs, ph, e)" rule: loop_step.cases) (auto split: if_splits)

lemma loop_run_dequeue_outside:
  "loop_run n bufs ph evs = Some ph' \<Longrightarrow> k < length evs \<Longrightarrow>
   evs ! k = Call (C_ioctl fh VIDIOC_DQBUF) r \<Longrightarrow> ret r \<noteq> -1 \<Longrightarrow> \<not> index r < n \<Longrightarrow>
   Suc k = length evs \<and> ph' = Dead"
proof (induction evs arbitrary: ph k)
  case Nil
  then show ?case by simp
next
  case (Cons e es)
  obtain ph1 where st: "loop_step n bufs ph e = Some ph1" and rest: "loop_run n bufs ph1 es = Some ph'"
    using Cons.prems(1) by (auto split: option.splits)
  show ?case
  proof (cases k)
    case 0
    then have "ph1 = Dead"
      using st Cons.prems(3,4,5) by (auto dest: loop_step_dequeue_outside)
    then show ?thesis
      using rest 0 by (auto dest: loop_run_Dead)
  next
    case (Suc k')
    then show ?thesis
      using Cons.IH [OF rest, of k'] Cons.prems(2-5) by simp
  qed
qed

lemma loop_run_Fwrite:
  "loop_run n bufs ph evs = Some ph' \<Longrightarrow> (\<forall>i. ph = Holding i \<longrightarrow> i < n) \<Longrightarrow>
   k < length evs \<Longrightarrow> evs ! k = Fwrite p sz \<Longrightarrow>
   \<exists>i. i < n \<and> p = start (bufs ! unat i)"
proof (induction evs arbitrary: ph k)
  case Nil
  then show ?case by simp
next
  case (Cons e es)
  obtain ph1 where st: "loop_step n bufs ph e = Some ph1" and rest: "loop_run n bufs ph1 es = Some ph'"
    using Cons.prems(1) by (auto split: option.splits)
  have inv1: "\<forall>i. ph1 = Holding i \<longrightarrow> i < n"
    using st Cons.prems(2) by (auto dest: loop_step_Holding)
  show ?case
  proof (cases k)
    case 0
    then show ?thesis
      using st Cons.prems(2,4) by (auto dest: loop_step_Fwrite)
  next
    case (Suc k')
    then show ?thesis
      using Cons.IH [OF rest inv1, of k'] Cons.prems(3,4) by simp
  qed
qed

lemma loop_step_Dead:
  "loop_step n bufs ph e = Some Dead \<Longrightarrow> ph \<noteq> Dead \<Longrightarrow>
   \<exists>fh r. e = Call (C_ioctl fh VIDIOC_DQBUF) r \<and> ret r \<noteq> -1 \<and> \<not> index r < n"
  by (cases "(n, bufs, ph, e)" rule: loop_step.cases) (auto split: if_splits)

lemma loop_run_ends_Dead:
  "loop_run n bufs ph evs = Some Dead \<Longrightarrow> ph \<noteq> Dead \<Longrightarrow>
   evs \<noteq> [] \<and>
   (\<exists>fh r. last evs = Call (C_ioctl fh VIDIOC_DQBUF) r \<and> ret r \<noteq> -1 \<and> \<not> index r < n)"
proof (induction evs arbitrary: ph)
  case Nil
  then show ?case by simp
next
  case (Cons e es)
  obtain ph1 where st: "loop_step n bufs ph e = Some ph1" and rest: "loop_run n bufs ph1 es = Some Dead"
    using Cons.prems(1) by (auto split: option.splits)
  show ?case
  proof (cases "ph1 = Dead")
    case True
    then have "es = []"
      using rest by (auto dest: loop_run_Dead)
    then show ?thesis
      using loop_step_Dead [OF st [unfolded True] Cons.prems(2)] by simp
  next
    case False
    from Cons.IH [OF rest False] show ?thesis
      by auto
  qed
qed

text \<open>
  C9. In every run of the capture loop that starts with as many descriptors as
  \<open>n_buffers\<close> says, the program never reads outside the \<^verbatim>\<open>buffers\<close> array. A successful
  dequeue that reports an index not below \<open>n_buffers\<close> is the last event of the run,
  which ends there by the failed assertion. The assertion fails in no other case: a
  run that ends by it has such a dequeue as its last event, so a successful dequeue
  with an index below \<open>n_buffers\<close> never ends the run by the assertion. Every frame
  written comes from the start of a buffer whose index is below \<open>n_buffers\<close>.
\<close>

theorem dequeued_index_is_checked:
  assumes "length (buffers s) = unat (n_buffers s)" and "mainloop s = (res, s')"
  shows "res \<noteq> Halt Out_of_bounds \<and>
         (\<exists>evs. trace s' = trace s @ evs \<and>
            (\<forall>k fh r. k < length evs \<and> evs ! k = Call (C_ioctl fh VIDIOC_DQBUF) r \<and>
                 ret r \<noteq> -1 \<and> \<not> index r < n_buffers s \<longrightarrow>
                 Suc k = length evs \<and> res = Halt Abort) \<and>
            (res = Halt Abort \<longrightarrow>
                 evs \<noteq> [] \<and>
                 (\<exists>fh r. last evs = Call (C_ioctl fh VIDIOC_DQBUF) r \<and>
                    ret r \<noteq> -1 \<and> \<not> index r < n_buffers s)) \<and>
            (\<forall>k fh r. k < length evs \<and> evs ! k = Call (C_ioctl fh VIDIOC_DQBUF) r \<and>
                 ret r \<noteq> -1 \<and> index r < n_buffers s \<longrightarrow>
                 \<not> (Suc k = length evs \<and> res = Halt Abort)) \<and>
            (\<forall>k p sz. k < length evs \<and> evs ! k = Fwrite p sz \<longrightarrow>
                 (\<exists>i. i < n_buffers s \<and> p = start (buffers s ! unat i))))"
proof -
  from mainloop_part [OF assms(2)]
  obtain evs ph where p: "loop_part s res s' evs ph"
    by blast
  then have tr: "trace s' = trace s @ evs"
    and run: "loop_run (n_buffers s) (buffers s) Idle evs = Some ph"
    and verdict: "case res of Return v \<Rightarrow> ph = Idle | Halt h \<Rightarrow> (h = Abort) = (ph = Dead)"
    and oob: "res \<noteq> Halt Out_of_bounds"
    using assms(1) by (simp_all add: loop_part_def)
  have dead: "res = Halt Abort" if "ph = Dead"
    using verdict that by (cases res) auto
  have a: "Suc k = length evs \<and> res = Halt Abort"
    if "k < length evs" "evs ! k = Call (C_ioctl fh VIDIOC_DQBUF) r" "ret r \<noteq> -1"
      "\<not> index r < n_buffers s" for k fh r
    using loop_run_dequeue_outside [OF run that] dead by simp
  have c: "evs \<noteq> [] \<and>
      (\<exists>fh r. last evs = Call (C_ioctl fh VIDIOC_DQBUF) r \<and> ret r \<noteq> -1 \<and>
         \<not> index r < n_buffers s)"
    if "res = Halt Abort"
  proof -
    have "ph = Dead"
      using verdict that by simp
    then show ?thesis
      using loop_run_ends_Dead [of "n_buffers s" "buffers s" Idle evs] run by simp
  qed
  have d: "\<not> (Suc k = length evs \<and> res = Halt Abort)"
    if "k < length evs" "evs ! k = Call (C_ioctl fh VIDIOC_DQBUF) r" "ret r \<noteq> -1"
      "index r < n_buffers s" for k fh r
  proof
    assume e: "Suc k = length evs \<and> res = Halt Abort"
    then have "evs \<noteq> []" and "k = length evs - 1"
      using that(1) by auto
    then have "last evs = evs ! k"
      by (simp add: last_conv_nth)
    then show False
      using c e that(2,4) by auto
  qed
  have b: "\<exists>i. i < n_buffers s \<and> p = start (buffers s ! unat i)"
    if "k < length evs" "evs ! k = Fwrite p sz" for k p sz
    using loop_run_Fwrite [OF run _ that] by simp
  show ?thesis
  proof (intro conjI exI [of _ evs] allI impI)
    show "res \<noteq> Halt Out_of_bounds" by (rule oob)
    show "trace s' = trace s @ evs" by (rule tr)
  qed (use a b c d in \<open>blast+\<close>)
qed

text \<open>
  Two buffers. A device that reports index 2 on the first dequeue: the run ends by the
  failed assertion right after the dequeue, with nothing written. A device that reports
  index 1 when one frame is asked for: the assertion holds, the frame is delivered, the
  buffer is queued again and the loop returns.
\<close>

theorem dequeued_index_is_checked_witness:
  "fst (mainloop (streaming_example 70
          [reply_ok\<lparr>ret := 1\<rparr>, reply_ok\<lparr>index := 2, bytesused := 100\<rparr>, reply_ok])) = Halt Abort \<and>
   fst (mainloop (streaming_example 70
          [reply_ok\<lparr>ret := 1\<rparr>, reply_ok\<lparr>index := 2, bytesused := 100\<rparr>, reply_ok])) \<noteq>
     Halt Out_of_bounds \<and>
   trace (snd (mainloop (streaming_example 70
          [reply_ok\<lparr>ret := 1\<rparr>, reply_ok\<lparr>index := 2, bytesused := 100\<rparr>, reply_ok]))) =
     [Call (C_select 4 2 0) (reply_ok\<lparr>ret := 1\<rparr>),
      Call (C_ioctl 3 VIDIOC_DQBUF) (reply_ok\<lparr>index := 2, bytesused := 100\<rparr>)] \<and>
   fst (mainloop (streaming_example 1
          [reply_ok\<lparr>ret := 1\<rparr>, reply_ok\<lparr>index := 1, bytesused := 100\<rparr>, reply_ok])) = Return () \<and>
   fst (mainloop (streaming_example 1
          [reply_ok\<lparr>ret := 1\<rparr>, reply_ok\<lparr>index := 1, bytesused := 100\<rparr>, reply_ok])) \<noteq>
     Halt Out_of_bounds"
proof -
  let ?s = "streaming_example 70
      [reply_ok\<lparr>ret := 1\<rparr>, reply_ok\<lparr>index := 2, bytesused := 100\<rparr>, reply_ok]"
  let ?t = "streaming_example 1
      [reply_ok\<lparr>ret := 1\<rparr>, reply_ok\<lparr>index := 1, bytesused := 100\<rparr>, reply_ok]"
  have a: "length (buffers ?s) = unat (n_buffers ?s)"
    and a': "length (buffers ?t) = unat (n_buffers ?t)"
    by (simp_all add: streaming_example_def)
  have b: "mainloop ?s = (fst (mainloop ?s), snd (mainloop ?s))"
    and b': "mainloop ?t = (fst (mainloop ?t), snd (mainloop ?t))"
    by simp_all
  have c: "mainloop ?s =
      (Halt Abort,
       answered (C_ioctl 3 VIDIOC_DQBUF) (reply_ok\<lparr>index := 2, bytesused := 100\<rparr>)
         (answered (C_select 4 2 0) (reply_ok\<lparr>ret := 1\<rparr>) ?s))"
    by (simp add: mainloop_def streaming_example_def mainloop_while_pos mainloop_for.simps
        invoke_def read_frame_def xioctl.simps reply_ok_def answered_def)
  have c': "fst (mainloop ?t) = Return ()"
    by (simp add: mainloop_def streaming_example_def mainloop_while_pos mainloop_while_0
        mainloop_for.simps invoke_def read_frame_def xioctl.simps reply_ok_def
        process_image_def log_event_def Let_def)
  have "fst (mainloop ?s) \<noteq> Halt Out_of_bounds"
    using dequeued_index_is_checked [OF a b] by blast
  moreover have "fst (mainloop ?t) \<noteq> Halt Out_of_bounds"
    using dequeued_index_is_checked [OF a' b'] by blast
  ultimately show ?thesis
    using c c' by (simp add: streaming_example_def)
qed

section \<open>Ownership of the buffers\<close>

text \<open>
  Who owns which buffer is read off the trace. A successful \<^verbatim>\<open>VIDIOC_QBUF\<close> hands the
  buffer to the device: it joins the buffers of the device and leaves those of the
  process. A successful \<^verbatim>\<open>VIDIOC_DQBUF\<close> hands the reported buffer to the process. The
  pair is (buffers of the device, buffers of the process); before anything is queued
  both are empty.
\<close>

fun own_step :: "event \<Rightarrow> 32 word set \<times> 32 word set \<Rightarrow> 32 word set \<times> 32 word set" where
  "own_step (Call (C_ioctl fh (VIDIOC_QBUF i)) r) (D, P) =
     (if ret r = -1 then (D, P) else (insert i D, P - {i}))"
| "own_step (Call (C_ioctl fh VIDIOC_DQBUF) r) (D, P) =
     (if ret r = -1 then (D, P) else (D - {index r}, insert (index r) P))"
| "own_step e (D, P) = (D, P)"

definition ownership :: "event list \<Rightarrow> 32 word set \<times> 32 word set" where
  "ownership evs = fold own_step evs ({}, {})"

definition device_owned :: "event list \<Rightarrow> 32 word set" where
  "device_owned evs = fst (ownership evs)"

definition process_owned :: "event list \<Rightarrow> 32 word set" where
  "process_owned evs = snd (ownership evs)"

text \<open>The two sets are disjoint and together they are the indices of the pool.\<close>

definition partitioned :: "32 word \<Rightarrow> 32 word set \<times> 32 word set \<Rightarrow> bool" where
  "partitioned n DP = (fst DP \<inter> snd DP = {} \<and> fst DP \<union> snd DP = {i. i < n})"

text \<open>What the phases of the loop say about ownership.\<close>

fun owned_in :: "32 word \<Rightarrow> phase \<Rightarrow> 32 word set \<times> 32 word set \<Rightarrow> bool" where
  "owned_in n Idle DP = (DP = ({i. i < n}, {}))"
| "owned_in n (Holding i) DP = (i < n \<and> DP = ({j. j < n} - {i}, {i}))"
| "owned_in n Dead DP = False"

lemma owned_in_partitioned: "owned_in n ph DP \<Longrightarrow> partitioned n DP"
  by (cases ph) (auto simp: partitioned_def)

lemma own_step_failed_calls:
  "list_all (\<lambda>r. ret r = -1) rs \<Longrightarrow> fold own_step (map (Call (C_ioctl fh rq)) rs) DP = DP"
proof (induction rs)
  case Nil
  then show ?case by simp
next
  case (Cons r rs)
  then have "own_step (Call (C_ioctl fh rq) r) DP = DP"
    by (cases "(Call (C_ioctl fh rq) r, DP)" rule: own_step.cases) auto
  then show ?case using Cons by simp
qed

lemma own_step_owned_in:
  assumes "loop_step n bufs ph e = Some ph1" and "owned_in n ph DP" and "ph1 \<noteq> Dead"
  shows "owned_in n ph1 (own_step e DP)"
proof (cases "(n, bufs, ph, e)" rule: loop_step.cases)
  case (2 n' bufs' fh r)
  then show ?thesis
    using assms by (auto split: if_splits)
next
  case (3 n' bufs' i fh j r)
  then show ?thesis
    using assms by (auto split: if_splits)
qed (use assms in \<open>auto split: if_splits\<close>)

lemma loop_run_partitioned:
  "loop_run n bufs ph evs = Some ph' \<Longrightarrow> owned_in n ph DP \<Longrightarrow>
   k \<le> length evs \<Longrightarrow> k < length evs \<or> ph' \<noteq> Dead \<Longrightarrow>
   partitioned n (fold own_step (take k evs) DP)"
proof (induction evs arbitrary: ph DP k)
  case Nil
  then show ?case by (simp add: owned_in_partitioned)
next
  case (Cons e es)
  obtain ph1 where st: "loop_step n bufs ph e = Some ph1" and rest: "loop_run n bufs ph1 es = Some ph'"
    using Cons.prems(1) by (auto split: option.splits)
  show ?case
  proof (cases k)
    case 0
    then show ?thesis
      using Cons.prems(2) by (simp add: owned_in_partitioned)
  next
    case (Suc k')
    have "ph1 \<noteq> Dead"
    proof
      assume "ph1 = Dead"
      then have "es = []" and "ph' = Dead"
        using rest by (auto dest: loop_run_Dead)
      then show False
        using Cons.prems(3,4) Suc by simp
    qed
    then have "owned_in n ph1 (own_step e DP)"
      using st Cons.prems(2) by (rule own_step_owned_in [rotated 2])
    then have "partitioned n (fold own_step (take k' es) (own_step e DP))"
      using Cons.IH [OF rest, of "own_step e DP" k'] Cons.prems(3,4) Suc by simp
    then show ?thesis
      using Suc by simp
  qed
qed

text \<open>
  The queueing loop of \<^verbatim>\<open>start_capturing\<close>: when it returns, every index from \<open>i\<close>
  up to \<open>n_buffers\<close> has been handed to the device.
\<close>

lemma word_less_Suc_set:
  "(i :: 32 word) < n \<Longrightarrow> {j. j < i + 1} = insert i {j. j < i}"
proof -
  assume "i < n"
  then have "unat (i + 1) = Suc (unat i)"
    by (rule unat_Suc_word)
  then have "j < i + 1 \<longleftrightarrow> j = i \<or> j < i" for j
    by (auto simp: word_less_nat_alt word_unat_eq_iff)
  then show ?thesis by auto
qed

lemma start_capturing_for_owned:
  "start_capturing_for i s = (Return (), s1) \<Longrightarrow> i \<le> n_buffers s \<Longrightarrow>
   \<exists>evs. trace s1 = trace s @ evs \<and>
         fold own_step evs ({j. j < i}, {}) = ({j. j < n_buffers s}, {}) \<and>
         fd s1 = fd s \<and> buffers s1 = buffers s \<and> n_buffers s1 = n_buffers s"
proof (induction i s rule: start_capturing_for.induct)
  case (1 i s)
  show ?case
  proof (cases "i < n_buffers s")
    case False
    then have "s1 = s" and "i = n_buffers s"
      using "1.prems" by (subst (asm) start_capturing_for.simps, simp)+
    then show ?thesis
      by (intro exI [of _ "[]"]) simp
  next
    case True
    let ?q = "C_ioctl (fd s) (VIDIOC_QBUF i)"
    obtain r2 s2 where x: "xioctl (fd s) (VIDIOC_QBUF i) s = (r2, s2)"
      by (cases "xioctl (fd s) (VIDIOC_QBUF i) s") auto
    note run = "1.prems"(1) [unfolded start_capturing_for.simps [of i s], unfolded x, simplified]
    from xioctl_answers [OF x]
    obtain rs where rs: "list_all (\<lambda>r. ret r = -1) rs"
      and alt: "r2 = Halt Blocked \<and> s2 = answered_all ?q rs s \<or>
        (\<exists>r. r2 = Return r \<and> s2 = answered_all ?q (rs @ [r]) s)"
      by blast
    from alt show ?thesis
    proof (elim disjE conjE exE)
      assume "r2 = Halt Blocked"
      then show ?thesis
        using run True by simp
    next
      fix r
      assume r2: "r2 = Return r" and s2: "s2 = answered_all ?q (rs @ [r]) s"
      have ok: "ret r \<noteq> -1"
        using run True r2 by (auto simp: errno_exit_def exit_with_def split: if_splits)
      then have next_run: "start_capturing_for (i + 1) s2 = (Return (), s1)"
        using run True r2 by simp
      have le: "i + 1 \<le> n_buffers s2"
        using True s2 by (simp add: inc_le)
      from "1.IH" [OF True x [symmetric] r2 ok next_run le]
      obtain evs where evs: "trace s1 = trace s2 @ evs"
        "fold own_step evs ({j. j < i + 1}, {}) = ({j. j < n_buffers s2}, {})"
        "fd s1 = fd s2" "buffers s1 = buffers s2" "n_buffers s1 = n_buffers s2"
        by blast
      have "fold own_step (map (Call ?q) (rs @ [r])) ({j. j < i}, {}) = ({j. j < i + 1}, {})"
        using rs ok True by (simp add: own_step_failed_calls word_less_Suc_set)
      then have "fold own_step (map (Call ?q) (rs @ [r]) @ evs) ({j. j < i}, {}) =
          ({j. j < n_buffers s}, {})"
        using evs(2) s2 by (simp del: map_append)
      then show ?thesis
        using evs s2
        by (intro exI [of _ "map (Call ?q) (rs @ [r]) @ evs"]) (simp del: map_append)
    qed
  qed
qed

lemma start_capturing_owned:
  assumes "start_capturing s = (Return (), s1)"
  shows "\<exists>evs. trace s1 = trace s @ evs \<and>
           fold own_step evs ({}, {}) = ({j. j < n_buffers s}, {}) \<and>
           fd s1 = fd s \<and> buffers s1 = buffers s \<and> n_buffers s1 = n_buffers s"
proof -
  obtain r2 s2 where q: "start_capturing_for 0 s = (r2, s2)"
    by (cases "start_capturing_for 0 s") auto
  note run = assms [unfolded start_capturing_def, unfolded q, simplified]
  have r2: "r2 = Return ()"
    using run by (cases r2) auto
  from start_capturing_for_owned [OF q [unfolded r2]]
  obtain evs where evs: "trace s2 = trace s @ evs"
    "fold own_step evs ({}, {}) = ({j. j < n_buffers s}, {})"
    "fd s2 = fd s" "buffers s2 = buffers s" "n_buffers s2 = n_buffers s"
    by auto
  let ?on = "C_ioctl (fd s2) VIDIOC_STREAMON"
  obtain r3 s3 where x: "xioctl (fd s2) VIDIOC_STREAMON s2 = (r3, s3)"
    by (cases "xioctl (fd s2) VIDIOC_STREAMON s2") auto
  from xioctl_answers [OF x]
  obtain rs where rs: "list_all (\<lambda>r. ret r = -1) rs"
    and alt: "r3 = Halt Blocked \<and> s3 = answered_all ?on rs s2 \<or>
      (\<exists>r. r3 = Return r \<and> s3 = answered_all ?on (rs @ [r]) s2)"
    by blast
  from alt show ?thesis
  proof (elim disjE conjE exE)
    assume "r3 = Halt Blocked"
    then show ?thesis
      using run r2 x by simp
  next
    fix r
    assume r3: "r3 = Return r" and s3: "s3 = answered_all ?on (rs @ [r]) s2"
    have "s1 = s3"
      using run r2 x r3 by (auto simp: errno_exit_def exit_with_def split: if_splits)
    moreover have "fold own_step (map (Call ?on) (rs @ [r])) DP = DP" for DP
    proof -
      have "fold own_step (map (Call ?on) rs) DP = DP"
        using rs by (rule own_step_failed_calls)
      moreover have "own_step (Call ?on r) DP = DP"
        by (cases DP) simp
      ultimately show ?thesis by simp
    qed
    ultimately show ?thesis
      using evs s3
      by (intro exI [of _ "evs @ map (Call ?on) (rs @ [r])"]) (simp del: map_append)
  qed
qed

text \<open>
  C5. Take a state in which nothing has been queued yet, let \<^verbatim>\<open>start_capturing\<close> return
  and let the capture loop run, to whatever end. When \<^verbatim>\<open>start_capturing\<close> returns,
  every index below \<open>n_buffers\<close> is owned by the device and none by the process. At
  every point of the trace from there on, the buffers of the device and those of the
  process are disjoint and together they are the indices below \<open>n_buffers\<close>. The one
  point excepted is the end of a run that the failed assertion has stopped: there the
  device has reported an index that is no buffer of the pool.
\<close>

theorem ownership_partition:
  assumes "ownership (trace s) = ({}, {})"
    and "start_capturing s = (Return (), s1)"
    and "mainloop s1 = (res, s2)"
  shows "device_owned (trace s1) = {i. i < n_buffers s} \<and>
         process_owned (trace s1) = {} \<and>
         (\<forall>k. length (trace s1) \<le> k \<and> k \<le> length (trace s2) \<and>
              (k < length (trace s2) \<or> res \<noteq> Halt Abort) \<longrightarrow>
              device_owned (take k (trace s2)) \<inter> process_owned (take k (trace s2)) = {} \<and>
              device_owned (take k (trace s2)) \<union> process_owned (take k (trace s2)) =
                {i. i < n_buffers s})"
proof -
  let ?n = "n_buffers s"
  from start_capturing_owned [OF assms(2)]
  obtain e0 where e0: "trace s1 = trace s @ e0"
    "fold own_step e0 ({}, {}) = ({j. j < ?n}, {})"
    "buffers s1 = buffers s" "n_buffers s1 = ?n"
    by blast
  have own1: "ownership (trace s1) = ({j. j < ?n}, {})"
    using e0(1,2) assms(1) by (simp add: ownership_def)
  from mainloop_part [OF assms(3)]
  obtain evs ph where p: "loop_part s1 res s2 evs ph"
    by blast
  then have tr: "trace s2 = trace s1 @ evs"
    and run: "loop_run ?n (buffers s) Idle evs = Some ph"
    and verdict: "case res of Return v \<Rightarrow> ph = Idle | Halt h \<Rightarrow> (h = Abort) = (ph = Dead)"
    using e0(3,4) by (simp_all add: loop_part_def)
  have alive: "ph \<noteq> Dead" if "res \<noteq> Halt Abort"
    using verdict that by (cases res) auto
  have at: "partitioned ?n (ownership (take k (trace s2)))"
    if k: "length (trace s1) \<le> k" "k \<le> length (trace s2)"
      "k < length (trace s2) \<or> res \<noteq> Halt Abort" for k
  proof -
    let ?k = "k - length (trace s1)"
    have tk: "take k (trace s2) = trace s1 @ take ?k evs"
      using tr k(1) by simp
    have "?k \<le> length evs" and "?k < length evs \<or> ph \<noteq> Dead"
      using k tr alive by auto
    then have "partitioned ?n (fold own_step (take ?k evs) ({j. j < ?n}, {}))"
      using loop_run_partitioned [OF run, of "({j. j < ?n}, {})" ?k] by simp
    then show ?thesis
      using own1 by (simp add: tk ownership_def)
  qed
  show ?thesis
    using own1 at by (simp add: device_owned_def process_owned_def partitioned_def)
qed

text \<open>
  Two buffers and one frame asked for: both buffers queued, the stream switched on, the
  device ready, buffer 1 dequeued (the fifth event), delivered and queued again.
\<close>

definition ownership_example :: state where
  "ownership_example =
     streaming_example 1
       [reply_ok, reply_ok, reply_ok,
        reply_ok\<lparr>ret := 1\<rparr>, reply_ok\<lparr>index := 1, bytesused := 100\<rparr>, reply_ok]"

definition ownership_example_started :: state where
  "ownership_example_started =
     answered (C_ioctl 3 VIDIOC_STREAMON) reply_ok
       (answered (C_ioctl 3 (VIDIOC_QBUF 1)) reply_ok
         (answered (C_ioctl 3 (VIDIOC_QBUF 0)) reply_ok ownership_example))"

definition ownership_example_done :: state where
  "ownership_example_done =
     answered (C_ioctl 3 (VIDIOC_QBUF 1)) reply_ok
       (process_image 8192 100
         (answered (C_ioctl 3 VIDIOC_DQBUF) (reply_ok\<lparr>index := 1, bytesused := 100\<rparr>)
           (answered (C_select 4 2 0) (reply_ok\<lparr>ret := 1\<rparr>) ownership_example_started)))"

lemma ownership_example_start:
  "start_capturing ownership_example = (Return (), ownership_example_started)"
  by (simp add: start_capturing_def start_capturing_for.simps xioctl.simps invoke_def
      ownership_example_started_def ownership_example_def streaming_example_def reply_ok_def
      answered_def)

lemma ownership_example_loop:
  "mainloop ownership_example_started = (Return (), ownership_example_done)"
  by (simp add: mainloop_def mainloop_while_pos mainloop_while_0
      mainloop_for.simps read_frame_def xioctl.simps invoke_def process_image_def log_event_def
      ownership_example_done_def ownership_example_started_def ownership_example_def
      streaming_example_def reply_ok_def answered_def Let_def)

theorem ownership_partition_witness:
  "device_owned (trace ownership_example_started) = {i. i < 2} \<and>
   process_owned (trace ownership_example_started) = {} \<and>
   process_owned (take 5 (trace ownership_example_done)) = {1} \<and>
   device_owned (take 5 (trace ownership_example_done)) \<inter>
   process_owned (take 5 (trace ownership_example_done)) = {} \<and>
   device_owned (take 5 (trace ownership_example_done)) \<union>
   process_owned (take 5 (trace ownership_example_done)) = {i. i < 2}"
proof -
  let ?s1 = "ownership_example_started"
  let ?s2 = "ownership_example_done"
  have a: "ownership (trace ownership_example) = ({}, {})"
    by (simp add: ownership_def ownership_example_def streaming_example_def)
  note b = ownership_example_start
  note c = ownership_example_loop
  have n: "n_buffers ownership_example = 2"
    by (simp add: ownership_example_def streaming_example_def)
  have l1: "length (trace ?s1) = 3"
    by (simp add: ownership_example_started_def ownership_example_def streaming_example_def)
  have l2: "length (trace ?s2) = 9"
    by (simp add: ownership_example_done_def ownership_example_started_def
        ownership_example_def streaming_example_def)
  have p: "process_owned (take 5 (trace ?s2)) = {1}"
    by (simp add: ownership_example_done_def ownership_example_started_def
        ownership_example_def streaming_example_def process_owned_def ownership_def reply_ok_def)
  have k: "length (trace ?s1) \<le> 5 \<and> 5 \<le> length (trace ?s2) \<and>
      (5 < length (trace ?s2) \<or> Return () \<noteq> Halt Abort)"
    by (simp add: l1 l2)
  note inst = ownership_partition [OF a b c]
  have at5: "device_owned (take 5 (trace ?s2)) \<inter> process_owned (take 5 (trace ?s2)) = {} \<and>
      device_owned (take 5 (trace ?s2)) \<union> process_owned (take 5 (trace ?s2)) =
        {i. i < n_buffers ownership_example}"
    using inst [THEN conjunct2, THEN conjunct2, rule_format, of 5] k by blast
  show ?thesis
    using inst [THEN conjunct1] inst [THEN conjunct2, THEN conjunct1] at5 p
    by (simp only: n)
qed

section \<open>Runs of the capture loop that deliver every frame\<close>

text \<open>
  What the environment answers while one frame is captured. Before the frame there
  may be attempts that deliver nothing: a wait interrupted by a signal, or a wait
  that reports the device ready and a dequeue (after interrupted calls) that finds no
  frame, \<^verbatim>\<open>EAGAIN\<close>. Then come the wait that reports the device ready, the dequeue
  (after interrupted calls) and the queueing of the same buffer (after interrupted
  calls).
\<close>

datatype attempt = Wait_interrupted reply | Not_ready reply "reply list" reply

datatype capture = Capture "attempt list" reply "reply list" reply "reply list" reply

fun attempt_replies :: "attempt \<Rightarrow> reply list" where
  "attempt_replies (Wait_interrupted sel) = [sel]"
| "attempt_replies (Not_ready sel rs nr) = sel # rs @ [nr]"

fun capture_replies :: "capture \<Rightarrow> reply list" where
  "capture_replies (Capture as sel ds dq qs q) =
     concat (map attempt_replies as) @ sel # ds @ dq # qs @ [q]"

text \<open>The wait reports a descriptor ready: neither an error nor a timeout.\<close>

definition ready :: "reply \<Rightarrow> bool" where
  "ready r = (ret r \<noteq> -1 \<and> ret r \<noteq> 0)"

text \<open>
  No wait times out and nothing fatal happens: the failures are \<^verbatim>\<open>EINTR\<close> and
  \<^verbatim>\<open>EAGAIN\<close> only, and the dequeued index is a buffer of the pool.
\<close>

fun attempt_ok :: "attempt \<Rightarrow> bool" where
  "attempt_ok (Wait_interrupted sel) = interrupted sel"
| "attempt_ok (Not_ready sel rs nr) =
     (ready sel \<and> list_all interrupted rs \<and> ret nr = -1 \<and> err nr = EAGAIN)"

fun capture_ok :: "32 word \<Rightarrow> capture \<Rightarrow> bool" where
  "capture_ok n (Capture as sel ds dq qs q) =
     (list_all attempt_ok as \<and> ready sel \<and>
      list_all interrupted ds \<and> ret dq \<noteq> -1 \<and> index dq < n \<and>
      list_all interrupted qs \<and> ret q \<noteq> -1)"

text \<open>The events of an attempt and of a capture, and the states after them.\<close>

fun attempt_events :: "int \<Rightarrow> attempt \<Rightarrow> event list" where
  "attempt_events fh (Wait_interrupted sel) = [Call (C_select (fh + 1) 2 0) sel]"
| "attempt_events fh (Not_ready sel rs nr) =
     Call (C_select (fh + 1) 2 0) sel # map (Call (C_ioctl fh VIDIOC_DQBUF)) (rs @ [nr])"

fun capture_events :: "int \<Rightarrow> buffer list \<Rightarrow> int \<Rightarrow> capture \<Rightarrow> event list" where
  "capture_events fh bufs ob (Capture as sel ds dq qs q) =
     concat (map (attempt_events fh) as) @
     Call (C_select (fh + 1) 2 0) sel #
     map (Call (C_ioctl fh VIDIOC_DQBUF)) (ds @ [dq]) @
     (if ob \<noteq> 0 then [Fwrite (start (bufs ! unat (index dq))) (sint (bytesused dq))] else []) @
     [Fflush Stderr, Fprintf Stderr ''.'', Fflush Stdout] @
     map (Call (C_ioctl fh (VIDIOC_QBUF (index dq)))) (qs @ [q])"

fun after_attempt :: "attempt \<Rightarrow> state \<Rightarrow> state" where
  "after_attempt (Wait_interrupted sel) s = answered (C_select (fd s + 1) 2 0) sel s"
| "after_attempt (Not_ready sel rs nr) s =
     answered_all (C_ioctl (fd s) VIDIOC_DQBUF) (rs @ [nr])
       (answered (C_select (fd s + 1) 2 0) sel s)"

fun after_capture :: "capture \<Rightarrow> state \<Rightarrow> state" where
  "after_capture (Capture as sel ds dq qs q) s =
     answered_all (C_ioctl (fd s) (VIDIOC_QBUF (index dq))) (qs @ [q])
       (process_image (start (buffers s ! unat (index dq))) (sint (bytesused dq))
         (answered_all (C_ioctl (fd s) VIDIOC_DQBUF) (ds @ [dq])
           (answered (C_select (fd s + 1) 2 0) sel (fold after_attempt as s))))"

lemma tl_drop_Suc: "tl (drop n xs) = drop (Suc n) xs"
  by (simp add: drop_Suc tl_drop)

lemma after_attempt_simps [simp]:
  "script (after_attempt a s) = drop (length (attempt_replies a)) (script s)"
  "trace (after_attempt a s) = trace s @ attempt_events (fd s) a"
  "fd (after_attempt a s) = fd s"
  "buffers (after_attempt a s) = buffers s"
  "n_buffers (after_attempt a s) = n_buffers s"
  "out_buf (after_attempt a s) = out_buf s"
  by (cases a, simp_all add: drop_Suc tl_drop)+

lemma after_attempts_simps [simp]:
  "script (fold after_attempt as s) = drop (length (concat (map attempt_replies as))) (script s)"
  "trace (fold after_attempt as s) = trace s @ concat (map (attempt_events (fd s)) as)"
  "fd (fold after_attempt as s) = fd s"
  "buffers (fold after_attempt as s) = buffers s"
  "n_buffers (fold after_attempt as s) = n_buffers s"
  "out_buf (fold after_attempt as s) = out_buf s"
  by (induction as arbitrary: s, simp_all add: add.commute)+

lemma after_capture_script [simp]:
  "script (after_capture c s) = drop (length (capture_replies c)) (script s)"
  by (cases c) (simp add: tl_drop_Suc ac_simps)

lemma after_capture_trace [simp]:
  "trace (after_capture c s) = trace s @ capture_events (fd s) (buffers s) (out_buf s) c"
  by (cases c) simp

lemma after_capture_globals [simp]:
  "fd (after_capture c s) = fd s"
  "buffers (after_capture c s) = buffers s"
  "n_buffers (after_capture c s) = n_buffers s"
  "out_buf (after_capture c s) = out_buf s"
  by (cases c, simp)+

declare after_capture.simps [simp del]

lemma after_captures_simps [simp]:
  "script (fold after_capture fs s) = drop (length (concat (map capture_replies fs))) (script s)"
  "trace (fold after_capture fs s) =
     trace s @ concat (map (capture_events (fd s) (buffers s) (out_buf s)) fs)"
  "fd (fold after_capture fs s) = fd s"
  "buffers (fold after_capture fs s) = buffers s"
  "n_buffers (fold after_capture fs s) = n_buffers s"
  "out_buf (fold after_capture fs s) = out_buf s"
  by (induction fs arbitrary: s,
      simp_all add: add.commute del: capture_events.simps capture_replies.simps)+

lemma errno_answered_all_snoc:
  "err r \<noteq> E_none \<Longrightarrow> errno (answered_all c (rs @ [r]) s) = err r"
  by (simp add: answered_all_snoc)

lemma attempt_run:
  assumes "attempt_ok a" and "script s = attempt_replies a @ rest"
  shows "mainloop_for s = mainloop_for (after_attempt a s)"
proof (cases a)
  case (Wait_interrupted sel)
  then have sc: "script s = sel # rest" and i: "ret sel = -1" "err sel = EINTR"
    using assms by (simp_all add: interrupted_def)
  have "invoke (C_select (fd s + 1) 2 0) s = (Return sel, answered (C_select (fd s + 1) 2 0) sel s)"
    using sc by (rule invoke_Cons)
  then show ?thesis
    using i Wait_interrupted by (subst mainloop_for.simps) simp
next
  case (Not_ready sel rs nr)
  let ?s1 = "answered (C_select (fd s + 1) 2 0) sel s"
  let ?s2 = "answered_all (C_ioctl (fd s) VIDIOC_DQBUF) (rs @ [nr]) ?s1"
  have sc: "script s = sel # (rs @ nr # rest)"
    and ok: "ret sel \<noteq> -1" "ret sel \<noteq> 0" "list_all interrupted rs" "ret nr = -1" "err nr = EAGAIN"
    using assms Not_ready by (simp_all add: ready_def)
  have inv: "invoke (C_select (fd s + 1) 2 0) s = (Return sel, ?s1)"
    using sc by (rule invoke_Cons)
  have "script ?s1 = rs @ nr # rest"
    using sc by simp
  then have "xioctl (fd ?s1) VIDIOC_DQBUF ?s1 =
      (Return nr, answered_all (C_ioctl (fd ?s1) VIDIOC_DQBUF) (rs @ [nr]) ?s1)"
    using ok(3,5) by (intro xioctl_run) (simp_all add: final_def)
  then have dq: "xioctl (fd ?s1) VIDIOC_DQBUF ?s1 = (Return nr, ?s2)"
    by simp
  have "errno ?s2 = EAGAIN"
    using ok(5) by (simp add: errno_answered_all_snoc)
  then have "read_frame ?s1 = (Return 0, ?s2)"
    using dq ok(4) by (simp add: read_frame_def)
  then have "mainloop_for s = mainloop_for ?s2"
    using inv ok(1,2) by (subst mainloop_for.simps) simp
  then show ?thesis
    using Not_ready by simp
qed

lemma attempts_run:
  "list_all attempt_ok as \<Longrightarrow> script s = concat (map attempt_replies as) @ rest \<Longrightarrow>
   mainloop_for s = mainloop_for (fold after_attempt as s)"
proof (induction as arbitrary: s)
  case Nil
  then show ?case by simp
next
  case (Cons a as)
  have "mainloop_for s = mainloop_for (after_attempt a s)"
    using Cons.prems by (intro attempt_run [of a s "concat (map attempt_replies as) @ rest"]) simp_all
  also have "\<dots> = mainloop_for (fold after_attempt as (after_attempt a s))"
    using Cons.prems by (intro Cons.IH) simp_all
  finally show ?case by simp
qed

lemma capture_run:
  assumes "capture_ok (n_buffers s) c" and "script s = capture_replies c @ rest"
    and "length (buffers s) = unat (n_buffers s)"
  shows "mainloop_for s = (Return (), after_capture c s)"
proof (cases c)
  case (Capture as sel ds dq qs q)
  let ?s0 = "fold after_attempt as s"
  let ?s1 = "answered (C_select (fd s + 1) 2 0) sel ?s0"
  let ?s2 = "answered_all (C_ioctl (fd s) VIDIOC_DQBUF) (ds @ [dq]) ?s1"
  let ?s3 = "process_image (start (buffers s ! unat (index dq))) (sint (bytesused dq)) ?s2"
  let ?s4 = "answered_all (C_ioctl (fd s) (VIDIOC_QBUF (index dq))) (qs @ [q]) ?s3"
  have ok: "list_all attempt_ok as" "ret sel \<noteq> -1" "ret sel \<noteq> 0"
    "list_all interrupted ds" "ret dq \<noteq> -1" "index dq < n_buffers s"
    "list_all interrupted qs" "ret q \<noteq> -1"
    using assms(1) Capture by (simp_all add: ready_def)
  have sc: "script s = concat (map attempt_replies as) @ (sel # ds @ dq # qs @ q # rest)"
    using assms(2) Capture by simp
  have first: "mainloop_for s = mainloop_for ?s0"
    using ok(1) sc by (rule attempts_run)
  have sc0: "script ?s0 = sel # (ds @ dq # qs @ q # rest)"
    using sc by simp
  have inv: "invoke (C_select (fd ?s0 + 1) 2 0) ?s0 = (Return sel, ?s1)"
    using invoke_Cons [OF sc0, of "C_select (fd ?s0 + 1) 2 0"] by simp
  have "script ?s1 = ds @ dq # (qs @ q # rest)"
    using sc0 by simp
  then have "xioctl (fd ?s1) VIDIOC_DQBUF ?s1 =
      (Return dq, answered_all (C_ioctl (fd ?s1) VIDIOC_DQBUF) (ds @ [dq]) ?s1)"
    using ok(4,5) by (intro xioctl_run) (simp_all add: final_def)
  then have dqr: "xioctl (fd ?s1) VIDIOC_DQBUF ?s1 = (Return dq, ?s2)"
    by simp
  have inb: "unat (index dq) < length (buffers s)"
    using ok(6) assms(3) by (simp add: word_less_nat_alt)
  have "script ?s3 = qs @ q # rest"
    using sc0 by simp
  then have "xioctl (fd ?s3) (VIDIOC_QBUF (index dq)) ?s3 =
      (Return q, answered_all (C_ioctl (fd ?s3) (VIDIOC_QBUF (index dq))) (qs @ [q]) ?s3)"
    using ok(7,8) by (intro xioctl_run) (simp_all add: final_def)
  then have qr: "xioctl (fd ?s3) (VIDIOC_QBUF (index dq)) ?s3 = (Return q, ?s4)"
    by simp
  have "read_frame ?s1 = (Return 1, ?s4)"
    using dqr qr ok(5,6,8) inb by (simp add: read_frame_def Let_def)
  then have "mainloop_for ?s0 = (Return (), ?s4)"
    using inv ok(2,3) by (subst mainloop_for.simps) simp
  then show ?thesis
    using first Capture by (simp add: after_capture.simps)
qed

lemma captures_run:
  "list_all (capture_ok (n_buffers s)) fs \<Longrightarrow>
   script s = concat (map capture_replies fs) @ rest \<Longrightarrow>
   length fs = unat c \<Longrightarrow> length (buffers s) = unat (n_buffers s) \<Longrightarrow>
   mainloop_while c s = (Return (), fold after_capture fs s)"
proof (induction fs arbitrary: s c)
  case Nil
  then have "c = 0"
    by (simp add: unat_eq_0)
  then show ?case
    by (simp add: mainloop_while_0)
next
  case (Cons f fs)
  have pos: "0 < c"
    using Cons.prems(3) by (auto simp: word_greater_zero_iff)
  have one: "mainloop_for s = (Return (), after_capture f s)"
    using Cons.prems
    by (intro capture_run [of s f "concat (map capture_replies fs) @ rest"]) simp_all
  have "unat (c - 1) = length fs"
    using Cons.prems(3) pos by (simp add: unat_minus_one word_greater_zero_iff)
  then have "mainloop_while (c - 1) (after_capture f s) =
      (Return (), fold after_capture fs (after_capture f s))"
    using Cons.prems by (intro Cons.IH) simp_all
  then show ?case
    using pos one by (simp add: mainloop_while_pos)
qed

lemma deliveries_attempts [simp]:
  "deliveries (concat (map (attempt_events fh) as)) = 0"
proof (induction as)
  case Nil
  then show ?case by simp
next
  case (Cons a as)
  then show ?case by (cases a) simp_all
qed

lemma deliveries_capture [simp]: "deliveries (capture_events fh bufs ob c) = 1"
  by (cases c) simp

lemma deliveries_captures:
  "deliveries (concat (map (capture_events fh bufs ob) fs)) = length fs"
  by (induction fs) (simp_all del: capture_events.simps)

text \<open>
  No dequeue is attempted while a dequeued buffer is still to be queued again:
  \<open>held\<close> is the buffer dequeued and not yet queued.
\<close>

fun requeued_first :: "32 word option \<Rightarrow> event list \<Rightarrow> bool" where
  "requeued_first held [] = True"
| "requeued_first held (Call (C_ioctl fh VIDIOC_DQBUF) r # es) =
     (held = None \<and> requeued_first (if ret r = -1 then None else Some (index r)) es)"
| "requeued_first held (Call (C_ioctl fh (VIDIOC_QBUF i)) r # es) =
     requeued_first (if ret r \<noteq> -1 \<and> held = Some i then None else held) es"
| "requeued_first held (e # es) = requeued_first held es"

fun held_in :: "phase \<Rightarrow> 32 word option" where
  "held_in Idle = None"
| "held_in (Holding i) = Some i"
| "held_in Dead = None"

lemma loop_run_requeued_first:
  "loop_run n bufs ph evs = Some ph' \<Longrightarrow> requeued_first (held_in ph) evs"
proof (induction evs arbitrary: ph)
  case Nil
  then show ?case by simp
next
  case (Cons e es)
  obtain ph1 where st: "loop_step n bufs ph e = Some ph1" and rest: "loop_run n bufs ph1 es = Some ph'"
    using Cons.prems by (auto split: option.splits)
  have ih: "requeued_first (held_in ph1) es"
    using rest by (rule Cons.IH)
  have dead: "es = []" if "ph1 = Dead"
    using rest that by (auto dest: loop_run_Dead)
  show ?case
  proof (cases "(n, bufs, ph, e)" rule: loop_step.cases)
    case (2 n' bufs' fh r)
    then show ?thesis
      using st ih dead by (auto split: if_splits)
  next
    case (3 n' bufs' i fh j r)
    then show ?thesis
      using st ih by (auto split: if_splits)
  qed (use st ih in \<open>auto split: if_splits\<close>)
qed

text \<open>
  The counter of the loop is the \<^verbatim>\<open>int\<close> \<open>frame_count\<close> converted to \<^verbatim>\<open>unsigned int\<close>:
  the value itself when it is not negative, and \<open>2 ^ 32\<close> more when it is.
\<close>

lemma unat_of_signed:
  fixes w :: "32 word"
  shows "int (unat w) = (if 0 \<le> sint w then sint w else 2 ^ 32 + sint w)"
proof -
  have e: "int (unat w) = sint w mod 2 ^ 32"
    by (simp add: uint_sint take_bit_eq_mod)
  have r: "- (2 ^ 31) \<le> sint w" "sint w < 2 ^ 31"
    using sint_ge [of w] sint_lt [of w] by simp_all
  show ?thesis
  proof (cases "0 \<le> sint w")
    case True
    then have "sint w mod 2 ^ 32 = sint w"
      using r by simp
    then show ?thesis
      using e True by simp
  next
    case False
    have "sint w mod 2 ^ 32 = (sint w + 2 ^ 32) mod 2 ^ 32"
      by simp
    also have "\<dots> = sint w + 2 ^ 32"
      using r False by (intro mod_pos_pos_trivial) simp_all
    finally show ?thesis
      using e False by simp
  qed
qed

text \<open>
  C4. Let the environment answer without a timeout and without a fatal failure, for as
  many captures as the counter of the loop asks for (\<open>frame_count\<close> read as unsigned),
  each with any number of interrupted waits and not-ready dequeues before its frame.
  Then \<^verbatim>\<open>mainloop\<close> returns, having consumed exactly these answers. Its events are those
  of the captures in order: each not-ready dequeue is followed by the wait of the next
  attempt, each frame is delivered once and its buffer queued again before the next
  wait, so that no dequeue is attempted while a buffer is held. The number of frames
  delivered is the counter, which is the requested count when that is not negative.
\<close>

theorem requested_frames_are_delivered:
  assumes "list_all (capture_ok (n_buffers s)) fs"
    and "script s = concat (map capture_replies fs) @ rest"
    and "length fs = unat (frame_count s)"
    and "length (buffers s) = unat (n_buffers s)"
  shows "\<exists>s'. mainloop s = (Return (), s') \<and>
           script s' = rest \<and>
           trace s' = trace s @ concat (map (capture_events (fd s) (buffers s) (out_buf s)) fs) \<and>
           deliveries (concat (map (capture_events (fd s) (buffers s) (out_buf s)) fs)) =
             unat (frame_count s) \<and>
           (0 \<le> sint (frame_count s) \<longrightarrow>
              int (deliveries (concat (map (capture_events (fd s) (buffers s) (out_buf s)) fs))) =
                sint (frame_count s)) \<and>
           requeued_first None (concat (map (capture_events (fd s) (buffers s) (out_buf s)) fs))"
proof -
  let ?s' = "fold after_capture fs s"
  let ?evs = "concat (map (capture_events (fd s) (buffers s) (out_buf s)) fs)"
  have run: "mainloop s = (Return (), ?s')"
    unfolding mainloop_def using assms by (rule captures_run)
  have sc: "script ?s' = rest"
    using assms(2) by simp
  have tr: "trace ?s' = trace s @ ?evs"
    by simp
  have d: "deliveries ?evs = unat (frame_count s)"
    using assms(3) by (simp add: deliveries_captures)
  have ds: "int (deliveries ?evs) = sint (frame_count s)" if "0 \<le> sint (frame_count s)"
    using d that unat_of_signed [of "frame_count s"] by simp
  from mainloop_part [OF run]
  obtain evs ph where "loop_part s (Return ()) ?s' evs ph"
    by blast
  then have "trace ?s' = trace s @ evs"
    and "loop_run (n_buffers s) (buffers s) Idle evs = Some ph"
    by (simp_all add: loop_part_def)
  then have "loop_run (n_buffers s) (buffers s) Idle ?evs = Some ph"
    using tr by simp
  then have rq: "requeued_first None ?evs"
    using loop_run_requeued_first [of "n_buffers s" "buffers s" Idle ?evs ph] by simp
  show ?thesis
    using run sc tr d ds rq by (intro exI [of _ ?s']) simp
qed

text \<open>
  Scenario C: five frames asked for, and a device whose dequeues answer not ready,
  ready, ready, not ready, ready, ready, ready, ready. Five frames are delivered, and
  the answers for the last ready buffer are left in the script.
\<close>

definition wait_ready :: reply where
  "wait_ready = reply_ok\<lparr>ret := 1\<rparr>"

definition not_ready :: reply where
  "not_ready = reply_fail EAGAIN"

definition frame_in :: "32 word \<Rightarrow> reply" where
  "frame_in i = reply_ok\<lparr>index := i, bytesused := 614400\<rparr>"

definition scenario_C :: "reply list" where
  "scenario_C =
     [wait_ready, not_ready,
      wait_ready, frame_in 0, reply_ok,
      wait_ready, frame_in 1, reply_ok,
      wait_ready, not_ready,
      wait_ready, frame_in 0, reply_ok,
      wait_ready, frame_in 1, reply_ok,
      wait_ready, frame_in 0, reply_ok,
      wait_ready, frame_in 1, reply_ok]"

definition scenario_C_captures :: "capture list" where
  "scenario_C_captures =
     [Capture [Not_ready wait_ready [] not_ready] wait_ready [] (frame_in 0) [] reply_ok,
      Capture [] wait_ready [] (frame_in 1) [] reply_ok,
      Capture [Not_ready wait_ready [] not_ready] wait_ready [] (frame_in 0) [] reply_ok,
      Capture [] wait_ready [] (frame_in 1) [] reply_ok,
      Capture [] wait_ready [] (frame_in 0) [] reply_ok]"

theorem requested_frames_are_delivered_witness:
  "\<exists>s'. mainloop (streaming_example 5 scenario_C) = (Return (), s') \<and>
        script s' = [wait_ready, frame_in 1, reply_ok] \<and>
        deliveries (trace s') = 5"
proof -
  let ?s = "streaming_example 5 scenario_C"
  let ?rest = "[wait_ready, frame_in 1, reply_ok]"
  have a: "list_all (capture_ok (n_buffers ?s)) scenario_C_captures"
    by (simp add: scenario_C_captures_def streaming_example_def ready_def wait_ready_def
        not_ready_def frame_in_def reply_ok_def reply_fail_def)
  have b: "script ?s = concat (map capture_replies scenario_C_captures) @ ?rest"
    by (simp add: scenario_C_captures_def scenario_C_def streaming_example_def)
  have c: "length scenario_C_captures = unat (frame_count ?s)"
    by (simp add: scenario_C_captures_def streaming_example_def)
  have d: "length (buffers ?s) = unat (n_buffers ?s)"
    by (simp add: streaming_example_def)
  have e: "trace ?s = []" "unat (frame_count ?s) = 5"
    by (simp_all add: streaming_example_def)
  show ?thesis
    using requested_frames_are_delivered [OF a b c d]
    apply (elim exE conjE)
    subgoal for s'
      apply (rule exI [of _ s'])
      apply (simp add: e)
      done
    done
qed

section \<open>The frame count\<close>

lemma list_all_replicate: "P x \<Longrightarrow> list_all P (replicate n x)"
  by (induction n) simp_all

lemma main_for_count_option:
  assumes "script s = g # v # rs" and "ret g = of_char (CHR ''c'')" and "err v = E_none"
  shows "main_for s =
           main_for
             ((answered (C_strtol (optarg g)) v ((answered C_getopt_long g s)\<lparr>errno := E_none\<rparr>))
                \<lparr>frame_count := word_of_int (ret v)\<rparr>)"
proof -
  let ?s1 = "answered C_getopt_long g s"
  let ?s2 = "answered (C_strtol (optarg g)) v (?s1\<lparr>errno := E_none\<rparr>)"
  have g: "invoke C_getopt_long s = (Return g, ?s1)"
    using assms(1) by (rule invoke_Cons)
  have "script (?s1\<lparr>errno := E_none\<rparr>) = v # rs"
    using assms(1) by simp
  then have v: "invoke (C_strtol (optarg g)) (?s1\<lparr>errno := E_none\<rparr>) = (Return v, ?s2)"
    by (rule invoke_Cons)
  have e: "errno (?s2\<lparr>frame_count := word_of_int (ret v)\<rparr>) = E_none"
    using assms(3) by (simp add: answered_def)
  show ?thesis
    using g v e assms(2) by (subst main_for.simps) (simp add: Let_def)
qed

text \<open>
  C10. The option \<^verbatim>\<open>--count\<close> stores what \<^verbatim>\<open>strtol\<close> returns into the \<^verbatim>\<open>int\<close>
  \<open>frame_count\<close> and the option loop goes on, whatever the sign of the value: there
  is no check. \<^verbatim>\<open>mainloop\<close> copies \<open>frame_count\<close> into an unsigned counter. With a
  count of 0 it returns at once, in the same state: no wait, no frame. With a negative
  count \<open>n\<close> the counter is \<open>2 ^ 32 + n\<close>: when the environment answers for that many
  captures, the loop runs through all of them and delivers \<open>2 ^ 32 + n\<close> frames.
\<close>

theorem negative_frame_count_wraps:
  "(script s0 = g # v # rs \<and> ret g = of_char (CHR ''c'') \<and> err v = E_none \<and>
    - (2 ^ 31) \<le> ret v \<and> ret v < 2 ^ 31 \<longrightarrow>
      (\<exists>s1. main_for s0 = main_for s1 \<and> sint (frame_count s1) = ret v \<and> script s1 = rs)) \<and>
   (frame_count s = 0 \<longrightarrow> mainloop s = (Return (), s)) \<and>
   (sint (frame_count s) < 0 \<and>
    list_all (capture_ok (n_buffers s)) fs \<and>
    script s = concat (map capture_replies fs) @ rest \<and>
    int (length fs) = 2 ^ 32 + sint (frame_count s) \<and>
    length (buffers s) = unat (n_buffers s) \<longrightarrow>
      (\<exists>s'. mainloop s = (Return (), s') \<and>
            script s' = rest \<and>
            trace s' = trace s @ concat (map (capture_events (fd s) (buffers s) (out_buf s)) fs) \<and>
            int (deliveries (concat (map (capture_events (fd s) (buffers s) (out_buf s)) fs))) =
              2 ^ 32 + sint (frame_count s)))"
proof (intro conjI impI)
  assume a: "script s0 = g # v # rs \<and> ret g = of_char (CHR ''c'') \<and> err v = E_none \<and>
    - (2 ^ 31) \<le> ret v \<and> ret v < 2 ^ 31"
  let ?s1 = "(answered (C_strtol (optarg g)) v ((answered C_getopt_long g s0)\<lparr>errno := E_none\<rparr>))
      \<lparr>frame_count := word_of_int (ret v)\<rparr>"
  have "main_for s0 = main_for ?s1"
    using a by (intro main_for_count_option [of s0 g v rs]) simp_all
  moreover have "sint (frame_count ?s1) = ret v"
  proof -
    have "sint (word_of_int (ret v) :: 32 word) = signed_take_bit 31 (ret v)"
      by (simp add: sint_sbintrunc')
    also have "\<dots> = ret v"
      using a by (intro signed_take_bit_int_eq_self) simp_all
    finally show ?thesis by simp
  qed
  moreover have "script ?s1 = rs"
    using a by simp
  ultimately show "\<exists>s1. main_for s0 = main_for s1 \<and> sint (frame_count s1) = ret v \<and> script s1 = rs"
    by blast
next
  assume "frame_count s = 0"
  then show "mainloop s = (Return (), s)"
    by (simp add: mainloop_def mainloop_while_0)
next
  assume a: "sint (frame_count s) < 0 \<and>
    list_all (capture_ok (n_buffers s)) fs \<and>
    script s = concat (map capture_replies fs) @ rest \<and>
    int (length fs) = 2 ^ 32 + sint (frame_count s) \<and>
    length (buffers s) = unat (n_buffers s)"
  let ?s' = "fold after_capture fs s"
  let ?evs = "concat (map (capture_events (fd s) (buffers s) (out_buf s)) fs)"
  have "int (unat (frame_count s)) = 2 ^ 32 + sint (frame_count s)"
    using a unat_of_signed [of "frame_count s"] by simp
  then have len: "length fs = unat (frame_count s)"
    using a by linarith
  have run: "mainloop s = (Return (), ?s')"
    unfolding mainloop_def using a len by (intro captures_run) simp_all
  moreover have "script ?s' = rest"
    using a by simp
  moreover have "int (deliveries ?evs) = 2 ^ 32 + sint (frame_count s)"
    using a by (simp add: deliveries_captures)
  ultimately show "\<exists>s'. mainloop s = (Return (), s') \<and> script s' = rest \<and>
      trace s' = trace s @ ?evs \<and> int (deliveries ?evs) = 2 ^ 32 + sint (frame_count s)"
    by (intro exI [of _ ?s']) simp
qed

text \<open>
  \<^verbatim>\<open>--count -1\<close> is taken as it is, a count of 0 captures nothing, and a count of -1
  captures 4294967295 frames from a device that has them. The whole program run with
  \<^verbatim>\<open>--count 0\<close> on a device with two buffers delivers no frame, unmaps both buffers and
  returns 0.
\<close>

definition wrapped_captures :: "capture list" where
  "wrapped_captures = replicate 4294967295 (Capture [] wait_ready [] (frame_in 0) [] reply_ok)"

definition count_zero_run :: "reply list" where
  "count_zero_run =
     [reply_ok\<lparr>ret := of_char (CHR ''c''), optarg := ''0''\<rparr>, reply_ok,
      reply_ok\<lparr>ret := -1\<rparr>,
      reply_ok\<lparr>st_ischr := True\<rparr>,
      reply_ok\<lparr>ret := 3\<rparr>,
      reply_ok\<lparr>capabilities := 0x04000001\<rparr>,
      reply_fail EINVAL,
      reply_ok,
      reply_ok\<lparr>count := 2\<rparr>, reply_ok\<lparr>ret := 24576\<rparr>,
      reply_ok\<lparr>length_q := 4096\<rparr>, reply_ok\<lparr>ret := 65536\<rparr>,
      reply_ok\<lparr>length_q := 4096, offset := 4096\<rparr>, reply_ok\<lparr>ret := 69632\<rparr>,
      reply_ok, reply_ok, reply_ok,
      reply_ok,
      reply_ok, reply_ok,
      reply_ok]"

lemma count_zero_main:
  "fst (main (initial_state count_zero_run)) = Return 0 \<and>
   script (snd (main (initial_state count_zero_run))) = [] \<and>
   deliveries (trace (snd (main (initial_state count_zero_run)))) = 0 \<and>
   filter is_munmap (trace (snd (main (initial_state count_zero_run)))) =
     [Call (C_munmap 65536 4096) reply_ok, Call (C_munmap 69632 4096) reply_ok]"
  by (simp add: main_def and_then_def count_zero_run_def initial_state_def
      main_for.simps open_device_def init_device_def init_device_caps_def init_device_crop_def
      init_device_fmt_def init_mmap_def init_mmap_for.simps start_capturing_def
      start_capturing_for.simps mainloop_def mainloop_while_0 stop_capturing_def
      uninit_device_def uninit_device_for.simps close_device_def main_end_def
      xioctl.simps invoke_def reply_ok_def reply_fail_def log_event_def Let_def
      V4L2_CAP_VIDEO_CAPTURE_def V4L2_CAP_STREAMING_def is_munmap_def)

definition count_option :: "reply list" where
  "count_option =
     [reply_ok\<lparr>ret := of_char (CHR ''c''), optarg := ''-1''\<rparr>, reply_ok\<lparr>ret := -1\<rparr>,
      reply_ok\<lparr>ret := -1\<rparr>]"

theorem negative_frame_count_wraps_witness:
  "(\<exists>s1. main_for (initial_state count_option) = main_for s1 \<and>
         sint (frame_count s1) = -1 \<and> script s1 = [reply_ok\<lparr>ret := -1\<rparr>]) \<and>
   mainloop (streaming_example 0 scenario_C) = (Return (), streaming_example 0 scenario_C) \<and>
   fst (main (initial_state count_zero_run)) = Return 0 \<and>
   deliveries (trace (snd (main (initial_state count_zero_run)))) = 0 \<and>
   (\<exists>s'. mainloop (streaming_example (-1) (concat (map capture_replies wrapped_captures))) =
           (Return (), s') \<and>
         script s' = [] \<and>
         int (deliveries (concat (map (capture_events 3
             [\<lparr>start = 4096, length_b = 100\<rparr>, \<lparr>start = 8192, length_b = 100\<rparr>] 0)
             wrapped_captures))) = 4294967295)"
proof -
  let ?g = "reply_ok\<lparr>ret := of_char (CHR ''c''), optarg := ''-1''\<rparr>"
  let ?v = "reply_ok\<lparr>ret := -1\<rparr>"
  let ?w = "streaming_example (-1) (concat (map capture_replies wrapped_captures))"
  have p: "script (initial_state count_option) = ?g # ?v # [reply_ok\<lparr>ret := -1\<rparr>] \<and>
      ret ?g = of_char (CHR ''c'') \<and> err ?v = E_none \<and> - (2 ^ 31) \<le> ret ?v \<and> ret ?v < 2 ^ 31"
    by (simp add: initial_state_def count_option_def reply_ok_def)
  have z: "frame_count (streaming_example 0 scenario_C) = 0"
    by (simp add: streaming_example_def)
  have ok: "capture_ok 2 (Capture [] wait_ready [] (frame_in 0) [] reply_ok)"
    by (simp add: ready_def wait_ready_def frame_in_def reply_ok_def)
  have fc: "frame_count ?w = -1" and nb: "n_buffers ?w = 2"
    and sc: "script ?w = concat (map capture_replies wrapped_captures) @ []"
    and lb: "length (buffers ?w) = unat (n_buffers ?w)"
    and gl: "fd ?w = 3" "out_buf ?w = 0"
      "buffers ?w = [\<lparr>start = 4096, length_b = 100\<rparr>, \<lparr>start = 8192, length_b = 100\<rparr>]"
    by (simp_all add: streaming_example_def)
  have w1: "sint (frame_count ?w) < 0"
    by (simp only: fc) simp
  have w2: "list_all (capture_ok (n_buffers ?w)) wrapped_captures"
    by (simp only: nb) (simp only: wrapped_captures_def list_all_replicate ok)
  have w4: "int (length wrapped_captures) = 2 ^ 32 + sint (frame_count ?w)"
    by (simp only: fc) (simp add: wrapped_captures_def)
  have w: "sint (frame_count ?w) < 0 \<and>
      list_all (capture_ok (n_buffers ?w)) wrapped_captures \<and>
      script ?w = concat (map capture_replies wrapped_captures) @ [] \<and>
      int (length wrapped_captures) = 2 ^ 32 + sint (frame_count ?w) \<and>
      length (buffers ?w) = unat (n_buffers ?w)"
    using w1 w2 sc w4 lb by (intro conjI)
  note inst = negative_frame_count_wraps
    [of "initial_state count_option" ?g ?v "[reply_ok\<lparr>ret := -1\<rparr>]"
        "streaming_example 0 scenario_C"]
  have one: "\<exists>s1. main_for (initial_state count_option) = main_for s1 \<and>
      sint (frame_count s1) = -1 \<and> script s1 = [reply_ok\<lparr>ret := -1\<rparr>]"
    using inst [THEN conjunct1, rule_format, OF p] by (simp add: reply_ok_def)
  have two: "mainloop (streaming_example 0 scenario_C) = (Return (), streaming_example 0 scenario_C)"
    using inst [THEN conjunct2, THEN conjunct1, rule_format, OF z] .
  have three: "\<exists>s'. mainloop ?w = (Return (), s') \<and> script s' = [] \<and>
      int (deliveries (concat (map (capture_events 3
          [\<lparr>start = 4096, length_b = 100\<rparr>, \<lparr>start = 8192, length_b = 100\<rparr>] 0)
          wrapped_captures))) = 4294967295"
    using negative_frame_count_wraps [of s0 g v rs ?w wrapped_captures "[]", THEN conjunct2,
        THEN conjunct2, rule_format, OF w]
    apply (elim exE conjE)
    subgoal for s'
      apply (rule exI [of _ s'])
      apply (simp only: gl fc)
      apply simp
      done
    done
  show ?thesis
    using one two three count_zero_main by blast
qed

end
